theory Spec2Isabelle
  imports Main
begin

section \<open>Multiple sequence alignments: the data model of msa.c\<close>

subsection \<open>Constants taken from msa.h\<close>

text \<open>
  Modelled from the spec: the macro \<^verbatim>\<open>GAP_CHAR\<close> of msa.h (the header is not among the
  sources). It is the gap symbol, "an alignment-only placeholder indicating a deletion".
\<close>

definition GAP_CHAR :: char where
  "GAP_CHAR = CHR ''-''"

text \<open>
  Modelled from the spec: the macro \<^verbatim>\<open>DEFAULT_MDATA_CHARS\<close> of msa.h, the missing-data
  symbols every new alignment starts with; its first character is the one written into
  synthesized rows.
\<close>

definition DEFAULT_MDATA_CHARS :: string where
  "DEFAULT_MDATA_CHARS = ''*N''"

text \<open>
  Modelled from the spec: the macro \<^verbatim>\<open>DEFAULT_ALPHABET\<close> of msa.h, the DNA alphabet used
  when the caller passes no alphabet.
\<close>

definition DEFAULT_ALPHABET :: string where
  "DEFAULT_ALPHABET = ''ACGT''"

text \<open>
  Modelled from the spec: the two gap-stripping modes of msa.h ("all rows gapped" and
  "any row gapped"). msa.c only needs them to be distinct and not positive, since a
  positive mode is the 1-based index of a row to project on.
\<close>

definition STRIP_ALL_GAPS :: int where
  "STRIP_ALL_GAPS = - 2"

definition STRIP_ANY_GAPS :: int where
  "STRIP_ANY_GAPS = - 1"

subsection \<open>Failures\<close>

text \<open>
  msa.c has no error values: it stops the process through \<^verbatim>\<open>assert\<close>, \<^verbatim>\<open>die\<close> or
  \<^verbatim>\<open>exit(1)\<close>. Each of these is a value here. \<open>Suff_stats_codec\<close> marks a branch
  that hands the alignment to sufficient_stats.c, which is outside these sources;
  \<open>Null_dereference\<close> and \<open>Out_of_bounds\<close> mark an access the C code makes through a
  null row table or outside an array, \<open>Division_by_zero\<close> a remainder by 0,
  \<open>Integer_overflow\<close> a size or length that does not fit an \<^verbatim>\<open>int\<close>.
\<close>

datatype error =
    Assertion_failed
  | Fatal string
  | Null_dereference
  | Out_of_bounds
  | Division_by_zero
  | Suff_stats_codec
  | Integer_overflow

subsection \<open>C integers\<close>

text \<open>
  Lengths, positions and indices are of type \<^verbatim>\<open>int\<close> in msa.c, 32 bits wide on the
  platforms phast is built for. C leaves an overflow of \<^verbatim>\<open>int\<close> arithmetic undefined; the
  compiled code wraps around, and so does \<open>int_wrap\<close>: it gives the \<^verbatim>\<open>int\<close> that the
  machine holds after computing the mathematical value \<open>v\<close>. Where the wrapped value
  would become a length or the size of an allocation (in \<^verbatim>\<open>msa_concatenate\<close> and
  \<^verbatim>\<open>msa_reorder_rows\<close>), the model stops with \<open>Integer_overflow\<close> instead;
  \<open>int_overflows\<close> says that a size is beyond the largest \<^verbatim>\<open>int\<close>.
\<close>

definition INT_MAX :: int where
  "INT_MAX = 2147483647"

definition int_wrap :: "int \<Rightarrow> int" where
  "int_wrap v = (v + 2147483648) mod 4294967296 - 2147483648"

definition int_overflows :: "nat \<Rightarrow> bool" where
  "int_overflows v \<longleftrightarrow> INT_MAX < int v"

subsection \<open>The alignment object\<close>

text \<open>
  What msa.c reads of the compressed view: the tuple size and whether the column order
  is stored.
\<close>

record suff_stats =
  tuple_size :: nat
  has_tuple_idx :: bool

text \<open>
  \<^verbatim>\<open>struct MSA\<close>. A row of \<open>seqs\<close> is the whole character buffer the row pointer
  addresses (\<open>alloc_len + 1\<close> bytes, the terminating NUL included); the alignment proper
  is the first \<open>length_msa\<close> characters of each of the first \<open>nseqs\<close> rows. \<open>None\<close> is
  the null pointer. The field \<^verbatim>\<open>length\<close> is called \<open>length_msa\<close> here.
\<close>

record MSA =
  seqs :: "string list option"
  names :: "string list"
  nseqs :: nat
  length_msa :: nat
  alphabet :: string
  missing :: string
  categories :: "int list option"
  ncats :: int
  alloc_len :: nat
  idx_offset :: int
  ss :: "suff_stats option"

text \<open>
  The rows of an alignment with an explicit character matrix: one buffer per row, each
  holding at least the \<open>length_msa\<close> characters and the terminator. msa.c checks no
  index. On such an alignment the loops over rows and columns stay inside the buffers,
  and the functions below index the rows as the C code does; where an access can leave
  its buffer all the same, the model of the function says what happens then.
\<close>

definition explicit_matrix :: "MSA \<Rightarrow> string list \<Rightarrow> bool" where
  "explicit_matrix m rows \<longleftrightarrow>
     seqs m = Some rows \<and> length rows = nseqs m \<and>
     list_all (\<lambda>r. length_msa m < length r) rows"

text \<open>The characters of the alignment: the first \<open>length_msa\<close> of every row.\<close>

definition matrix :: "MSA \<Rightarrow> string list" where
  "matrix m = (case seqs m of None \<Rightarrow> [] | Some rows \<Rightarrow> map (take (length_msa m)) (take (nseqs m) rows))"

text \<open>
  \<^verbatim>\<open>for (i = 0; i < n; i++) f(rows[i])\<close>: an in-place update of the first \<open>n\<close> rows.
\<close>

definition for_rows :: "nat \<Rightarrow> (string \<Rightarrow> string) \<Rightarrow> string list \<Rightarrow> string list" where
  "for_rows n f rows = map f (take n rows) @ drop n rows"

section \<open>Reverse complement\<close>

definition msa_compl_char :: "char \<Rightarrow> char" where
  "msa_compl_char c =
     (if c = CHR ''A'' then CHR ''T''
      else if c = CHR ''C'' then CHR ''G''
      else if c = CHR ''G'' then CHR ''C''
      else if c = CHR ''T'' then CHR ''A''
      else c)"

text \<open>
  The loop of \<^verbatim>\<open>msa_reverse_compl_seq\<close>: \<^verbatim>\<open>for (i = 0; i <= midpt; i++)\<close>, swapping and
  complementing the two ends in place. When \<open>i\<close> is the middle of an odd-length
  sequence both writes hit the same cell and the second one wins.
\<close>

function reverse_compl_loop :: "string \<Rightarrow> nat \<Rightarrow> nat \<Rightarrow> nat \<Rightarrow> string" where
  "reverse_compl_loop seq len midpt i =
     (if i \<le> midpt then
        (let tmp = msa_compl_char (seq ! i);
             seq1 = seq[i := msa_compl_char (seq ! (len - i - 1))];
             seq2 = seq1[len - i - 1 := tmp]
         in reverse_compl_loop seq2 len midpt (i + 1))
      else seq)"
  by pat_completeness auto
termination
  by (relation "measure (\<lambda>(seq, len, midpt, i). midpt + 1 - i)") auto

declare reverse_compl_loop.simps [simp del]

definition msa_reverse_compl_seq :: "string \<Rightarrow> nat \<Rightarrow> string" where
  "msa_reverse_compl_seq seq len =
     (if len = 0 then seq else reverse_compl_loop seq len ((len - 1) div 2) 0)"

text \<open>
  \<^verbatim>\<open>msa_reverse_compl\<close>. Without a compressed view the function asserts that no
  category array is attached. With a compressed view it goes through
  \<^verbatim>\<open>ss_to_msa\<close>, \<^verbatim>\<open>ss_reverse_compl\<close> or \<^verbatim>\<open>ss_from_msas\<close>.
\<close>

definition msa_reverse_compl :: "MSA \<Rightarrow> error + MSA" where
  "msa_reverse_compl m =
     (if ss m = None \<and> categories m \<noteq> None then Inl Assertion_failed
      else if ss m \<noteq> None then Inl Suff_stats_codec
      else (case seqs m of
              None \<Rightarrow> Inr m
            | Some rows \<Rightarrow>
                Inr (m\<lparr>seqs := Some (for_rows (nseqs m)
                                        (\<lambda>seq. msa_reverse_compl_seq seq (length_msa m)) rows)\<rparr>)))"

section \<open>Properties of the reverse complement\<close>

lemma msa_compl_char_twice: "msa_compl_char (msa_compl_char c) = c"
  by (simp add: msa_compl_char_def)

lemma reverse_compl_loop_length:
  "length (reverse_compl_loop seq len midpt i) = length seq"
proof (induction seq len midpt i rule: reverse_compl_loop.induct)
  case (1 seq len midpt i)
  show ?case
  proof (cases "i \<le> midpt")
    case True
    with "1" show ?thesis
      by (subst reverse_compl_loop.simps) (simp add: Let_def)
  next
    case False
    then show ?thesis by (subst reverse_compl_loop.simps) simp
  qed
qed

lemma reverse_compl_loop_nth:
  "len \<le> length seq \<Longrightarrow> 0 < len \<Longrightarrow> midpt = (len - 1) div 2 \<Longrightarrow> k < length seq \<Longrightarrow>
   reverse_compl_loop seq len midpt i ! k =
     (if i \<le> k \<and> k + i < len then msa_compl_char (seq ! (len - 1 - k)) else seq ! k)"
proof (induction seq len midpt i rule: reverse_compl_loop.induct)
  case (1 seq len midpt i)
  show ?case
  proof (cases "i \<le> midpt")
    case False
    with "1.prems" have "\<not> (i \<le> k \<and> k + i < len)" by auto
    with False show ?thesis by (subst reverse_compl_loop.simps) auto
  next
    case True
    note mid = True
    define seq1 where "seq1 = seq[i := msa_compl_char (seq ! (len - i - 1))]"
    define seq2 where "seq2 = seq1[len - i - 1 := msa_compl_char (seq ! i)]"
    have step: "reverse_compl_loop seq len midpt i = reverse_compl_loop seq2 len midpt (i + 1)"
      using True by (subst reverse_compl_loop.simps) (simp add: Let_def seq1_def seq2_def)
    have len2: "length seq2 = length seq" by (simp add: seq1_def seq2_def)
    have ih: "reverse_compl_loop seq2 len midpt (i + 1) ! k =
        (if i + 1 \<le> k \<and> k + (i + 1) < len then msa_compl_char (seq2 ! (len - 1 - k)) else seq2 ! k)"
      using "1.IH"[OF True refl refl refl] "1.prems" len2
      by (simp add: seq1_def seq2_def)
    have il: "i < len" "len - i - 1 < length seq" "i < length seq" using True "1.prems" by auto
    show ?thesis
    proof (cases "i + 1 \<le> k \<and> k + (i + 1) < len")
      case True
      then have "len - 1 - k \<noteq> i" "len - 1 - k \<noteq> len - i - 1" by auto
      then have "seq2 ! (len - 1 - k) = seq ! (len - 1 - k)"
        by (simp add: seq1_def seq2_def)
      with True ih step show ?thesis by simp
    next
      case False
      note out = this
      have r: "reverse_compl_loop seq len midpt i ! k = seq2 ! k" using ih step False by auto
      show ?thesis
      proof (cases "k = len - i - 1")
        case True
        then have "seq2 ! k = msa_compl_char (seq ! i)" using il by (simp add: seq1_def seq2_def)
        moreover have "len - 1 - k = i" "i \<le> k" "k + i < len" using True il mid "1.prems" by auto
        ultimately show ?thesis using r by auto
      next
        case False
        show ?thesis
        proof (cases "k = i")
          case True
          then have "seq2 ! k = msa_compl_char (seq ! (len - i - 1))" using il False by (simp add: seq1_def seq2_def)
          moreover have "len - 1 - k = len - i - 1" "i \<le> k" "k + i < len" using True il mid "1.prems" False by auto
          ultimately show ?thesis using r by auto
        next
          case ki: False
          have "seq2 ! k = seq ! k" using ki False by (simp add: seq1_def seq2_def)
          moreover have "\<not> (i \<le> k \<and> k + i < len)" using ki False out by auto
          ultimately show ?thesis using r by auto
        qed
      qed
    qed
  qed
qed

lemma msa_reverse_compl_seq_eq:
  assumes "len \<le> length seq"
  shows "msa_reverse_compl_seq seq len = map msa_compl_char (rev (take len seq)) @ drop len seq"
proof (cases "len = 0")
  case True then show ?thesis by (simp add: msa_reverse_compl_seq_def)
next
  case False
  show ?thesis
  proof (rule nth_equalityI)
    show "length (msa_reverse_compl_seq seq len) = length (map msa_compl_char (rev (take len seq)) @ drop len seq)"
      using assms by (simp add: msa_reverse_compl_seq_def reverse_compl_loop_length)
  next
    fix k assume "k < length (msa_reverse_compl_seq seq len)"
    then have k: "k < length seq" by (simp add: msa_reverse_compl_seq_def reverse_compl_loop_length split: if_splits)
    show "msa_reverse_compl_seq seq len ! k = (map msa_compl_char (rev (take len seq)) @ drop len seq) ! k"
      using assms False k
      by (simp add: msa_reverse_compl_seq_def reverse_compl_loop_nth nth_append rev_nth)
  qed
qed

lemma msa_reverse_compl_seq_twice:
  assumes "len \<le> length seq"
  shows "msa_reverse_compl_seq (msa_reverse_compl_seq seq len) len = seq"
proof -
  let ?s1 = "map msa_compl_char (rev (take len seq)) @ drop len seq"
  have l1: "len \<le> length ?s1" using assms by simp
  have t1: "take len ?s1 = map msa_compl_char (rev (take len seq))" using assms by simp
  have d1: "drop len ?s1 = drop len seq" using assms by simp
  have "msa_reverse_compl_seq ?s1 len = map msa_compl_char (rev (take len ?s1)) @ drop len ?s1"
    by (rule msa_reverse_compl_seq_eq [OF l1])
  also have "\<dots> = map msa_compl_char (rev (map msa_compl_char (rev (take len seq)))) @ drop len seq"
    by (simp only: t1 d1)
  also have "\<dots> = take len seq @ drop len seq"
    by (simp add: rev_map msa_compl_char_twice comp_def)
  finally show ?thesis using assms by (simp add: msa_reverse_compl_seq_eq)
qed

lemma for_rows_length: "length (for_rows n f rows) = length rows"
  by (simp add: for_rows_def)

lemma for_rows_twice:
  assumes "\<And>r. r \<in> set rows \<Longrightarrow> f (f r) = r"
  shows "for_rows n f (for_rows n f rows) = rows"
proof -
  have "\<And>r. r \<in> set (take n rows) \<Longrightarrow> f (f r) = r"
    using assms by (blast dest: in_set_takeD)
  then have id: "map (\<lambda>r. f (f r)) (take n rows) = take n rows"
    by (intro map_idI)
  show ?thesis
  proof (cases "n \<le> length rows")
    case True
    then show ?thesis using id by (simp add: for_rows_def comp_def min_def)
  next
    case False
    then show ?thesis using id by (simp add: for_rows_def comp_def)
  qed
qed

text \<open>
  What one application does to the characters of the alignment: every row is reversed
  and complemented.
\<close>

lemma msa_reverse_compl_matrix:
  assumes "explicit_matrix m rows" and "ss m = None" and "categories m = None"
  shows "\<exists>m1. msa_reverse_compl m = Inr m1 \<and>
           matrix m1 = map (\<lambda>r. map msa_compl_char (rev r)) (matrix m)"
proof -
  have len: "\<And>r. r \<in> set rows \<Longrightarrow> length_msa m \<le> length r"
    using assms(1) by (auto simp: explicit_matrix_def list_all_iff less_imp_le)
  have "map (\<lambda>r. take (length_msa m) (msa_reverse_compl_seq r (length_msa m))) rows =
        map (\<lambda>r. map msa_compl_char (rev (take (length_msa m) r))) rows"
    using len by (simp add: msa_reverse_compl_seq_eq)
  then show ?thesis
    using assms by (simp add: msa_reverse_compl_def matrix_def explicit_matrix_def for_rows_def comp_def)
qed

text \<open>
  An alignment of two rows, used to run the operations on concrete data.
\<close>

definition NUL :: char where
  "NUL = CHR 0x00"

definition example_msa :: MSA where
  "example_msa =
     \<lparr>seqs = Some [''AC-GT'' @ [NUL], ''A-NGG'' @ [NUL]], names = [''human'', ''mouse''],
      nseqs = 2, length_msa = 5, alphabet = DEFAULT_ALPHABET, missing = DEFAULT_MDATA_CHARS,
      categories = None, ncats = - 1, alloc_len = 5, idx_offset = 0, ss = None\<rparr>"

text \<open>
  C5, as the claim states it, fails: on an alignment that carries a category array and
  no compressed view, \<^verbatim>\<open>msa_reverse_compl\<close> stops at its assertion
  \<^verbatim>\<open>assert(msa->categories == NULL)\<close>, so nothing is returned at all.
\<close>

theorem msa_reverse_compl_categories_counterexample:
  "msa_reverse_compl (example_msa\<lparr>categories := Some [0, 0, 1, 1, 0]\<rparr>) = Inl Assertion_failed"
  by (simp add: msa_reverse_compl_def example_msa_def)

text \<open>
  C5 (amended): for every alignment with an explicit character matrix, no compressed
  view and no category array (what the assertion of \<^verbatim>\<open>msa_reverse_compl\<close> demands),
  applying \<^verbatim>\<open>msa_reverse_compl\<close> twice succeeds both times and gives back the
  alignment it started from: every row buffer, and every other field, is exactly as it
  was.
\<close>

theorem msa_reverse_compl_twice:
  assumes "explicit_matrix m rows" and "ss m = None" and "categories m = None"
  shows "\<exists>m1. msa_reverse_compl m = Inr m1 \<and> msa_reverse_compl m1 = Inr m \<and> seqs m = Some rows"
proof -
  let ?f = "\<lambda>seq. msa_reverse_compl_seq seq (length_msa m)"
  let ?m1 = "m\<lparr>seqs := Some (for_rows (nseqs m) ?f rows)\<rparr>"
  have s: "seqs m = Some rows" using assms(1) by (simp add: explicit_matrix_def)
  have len: "\<And>r. r \<in> set rows \<Longrightarrow> length_msa m \<le> length r"
    using assms(1) by (auto simp: explicit_matrix_def list_all_iff less_imp_le)
  have one: "msa_reverse_compl m = Inr ?m1"
    using assms(2,3) s by (simp add: msa_reverse_compl_def)
  have twice: "for_rows (nseqs m) ?f (for_rows (nseqs m) ?f rows) = rows"
    by (rule for_rows_twice) (simp add: len msa_reverse_compl_seq_twice)
  have "msa_reverse_compl ?m1 = Inr (?m1\<lparr>seqs := Some rows\<rparr>)"
    using assms(2,3) by (simp add: msa_reverse_compl_def twice)
  also have "?m1\<lparr>seqs := Some rows\<rparr> = m" using s by simp
  finally show ?thesis using one s by blast
qed

theorem msa_reverse_compl_twice_witness:
  "\<exists>m1. msa_reverse_compl example_msa = Inr m1 \<and> msa_reverse_compl m1 = Inr example_msa \<and>
        seqs example_msa = Some [''AC-GT'' @ [NUL], ''A-NGG'' @ [NUL]]"
proof -
  have "explicit_matrix example_msa [''AC-GT'' @ [NUL], ''A-NGG'' @ [NUL]]"
    by (simp add: explicit_matrix_def example_msa_def)
  moreover have "ss example_msa = None" "categories example_msa = None"
    by (simp_all add: example_msa_def)
  ultimately show ?thesis by (rule msa_reverse_compl_twice)
qed

section \<open>Gap stripping\<close>


text \<open>
  The scan of column \<open>i\<close> in \<^verbatim>\<open>msa_strip_gaps\<close>: \<^verbatim>\<open>for (j = 0; j < msa->nseqs; j++)\<close> with
  its two \<^verbatim>\<open>break\<close>s. \<open>strip\<close> is the flag as initialised before the loop.
\<close>

function strip_scan :: "int \<Rightarrow> string list \<Rightarrow> nat \<Rightarrow> nat \<Rightarrow> nat \<Rightarrow> bool \<Rightarrow> bool" where
  "strip_scan mode rows n i j strip =
     (if j < n then
        (let c = rows ! j ! i in
           if mode = STRIP_ANY_GAPS \<and> c = GAP_CHAR then True
           else if mode = STRIP_ALL_GAPS \<and> c \<noteq> GAP_CHAR then False
           else strip_scan mode rows n i (j + 1) strip)
      else strip)"
  by pat_completeness auto
termination
  by (relation "measure (\<lambda>(mode, rows, n, i, j, strip). n - j)") auto

declare strip_scan.simps [simp del]

text \<open>
  The column loop of \<^verbatim>\<open>msa_strip_gaps\<close>, \<^verbatim>\<open>for (i = 0; i < msa->length; i++)\<close>: a kept
  column is copied down to position \<open>k\<close> in every row (and in the category array)
  unless it is already there.
\<close>

function strip_loop ::
  "int \<Rightarrow> nat \<Rightarrow> nat \<Rightarrow> string list \<Rightarrow> int list option \<Rightarrow> nat \<Rightarrow> nat \<Rightarrow>
   string list \<times> int list option \<times> nat" where
  "strip_loop mode n len rows cats i k =
     (if i < len then
        (let strip = strip_scan mode rows n i 0 (mode = STRIP_ALL_GAPS) in
           if k = i \<and> \<not> strip then strip_loop mode n len rows cats (i + 1) (k + 1)
           else if \<not> strip then
             strip_loop mode n len (for_rows n (\<lambda>r. r[k := r ! i]) rows)
               (map_option (\<lambda>c. c[k := c ! i]) cats) (i + 1) (k + 1)
           else strip_loop mode n len rows cats (i + 1) k)
      else (rows, cats, k))"
  by pat_completeness auto
termination
  by (relation "measure (\<lambda>(mode, n, len, rows, cats, i, k). len - i)") auto

declare strip_loop.simps [simp del]

text \<open>
  The loop of \<^verbatim>\<open>msa_project\<close>: the columns in which row \<open>refseq - 1\<close> has no gap are
  kept; the inner copy loop is guarded by \<^verbatim>\<open>k != i\<close>.
\<close>

function project_loop ::
  "nat \<Rightarrow> nat \<Rightarrow> nat \<Rightarrow> string list \<Rightarrow> int list option \<Rightarrow> nat \<Rightarrow> nat \<Rightarrow>
   string list \<times> int list option \<times> nat" where
  "project_loop ref n len rows cats i k =
     (if i < len then
        (if rows ! ref ! i \<noteq> GAP_CHAR then
           project_loop ref n len
             (if k \<noteq> i then for_rows n (\<lambda>r. r[k := r ! i]) rows else rows)
             (map_option (\<lambda>c. c[k := c ! i]) cats) (i + 1) (k + 1)
         else project_loop ref n len rows cats (i + 1) k)
      else (rows, cats, k))"
  by pat_completeness auto
termination
  by (relation "measure (\<lambda>(ref, n, len, rows, cats, i, k). len - i)") auto

declare project_loop.simps [simp del]

definition msa_project :: "MSA \<Rightarrow> int \<Rightarrow> error + MSA" where
  "msa_project m refseq =
     (if \<not> (1 \<le> refseq \<and> refseq \<le> int (nseqs m)) then Inl Assertion_failed
      else (case seqs m of
              None \<Rightarrow> if 0 < length_msa m then Inl Null_dereference
                       else Inr (m\<lparr>length_msa := 0\<rparr>)
            | Some rows \<Rightarrow>
                (case project_loop (nat (refseq - 1)) (nseqs m) (length_msa m) rows
                        (categories m) 0 0 of
                   (rows', cats', k) \<Rightarrow>
                     Inr (m\<lparr>seqs := Some rows', categories := cats', length_msa := k\<rparr>))))"

text \<open>
  \<^verbatim>\<open>msa_strip_gaps\<close>. When both views exist the compressed one is freed; a compressed
  view alone is stripped by \<^verbatim>\<open>ss_strip_gaps\<close>. With neither view the row table is
  null, and the loop dereferences it as soon as there is a row and a column to look at.
\<close>

definition msa_strip_gaps :: "MSA \<Rightarrow> int \<Rightarrow> error + MSA" where
  "msa_strip_gaps m gap_strip_mode =
     (let m1 = (if seqs m \<noteq> None \<and> ss m \<noteq> None then m\<lparr>ss := None\<rparr> else m) in
      if ss m1 \<noteq> None then Inl Suff_stats_codec
      else if gap_strip_mode > 0 then msa_project m1 gap_strip_mode
      else if \<not> (gap_strip_mode = STRIP_ALL_GAPS \<or> gap_strip_mode = STRIP_ANY_GAPS)
        then Inl Assertion_failed
      else (case seqs m1 of
              None \<Rightarrow>
                if 0 < nseqs m1 \<and> 0 < length_msa m1 then Inl Null_dereference
                else (case strip_loop gap_strip_mode (nseqs m1) (length_msa m1) []
                             (categories m1) 0 0 of
                        (rows', cats', k) \<Rightarrow> Inr (m1\<lparr>categories := cats', length_msa := k\<rparr>))
            | Some rows \<Rightarrow>
                (case strip_loop gap_strip_mode (nseqs m1) (length_msa m1) rows
                        (categories m1) 0 0 of
                   (rows', cats', k) \<Rightarrow>
                     Inr (m1\<lparr>seqs := Some rows', categories := cats', length_msa := k\<rparr>))))"

section \<open>Properties of gap stripping\<close>


lemma for_rows_nth:
  "j < length rows \<Longrightarrow> for_rows n f rows ! j = (if j < n then f (rows ! j) else rows ! j)"
  by (auto simp: for_rows_def nth_append min_def)





text \<open>On the example the columns 2 and 3 (counting from 1) go: three columns are left.\<close>

lemma msa_strip_gaps_example:
  "map_sum id matrix (msa_strip_gaps example_msa STRIP_ANY_GAPS) = Inr [''AGT'', ''AGG'']"
  by (simp add: msa_strip_gaps_def example_msa_def Let_def STRIP_ANY_GAPS_def STRIP_ALL_GAPS_def
      strip_loop.simps strip_scan.simps for_rows_def matrix_def GAP_CHAR_def NUL_def)

section \<open>Concatenation\<close>

text \<open>
  \<^verbatim>\<open>smalloc\<close> and \<^verbatim>\<open>srealloc\<close> hand out memory whose content is indeterminate. The
  model takes that content as a parameter: \<open>fresh j p\<close> is the byte found at position
  \<open>p\<close> of the block obtained for row \<open>j\<close>. \<^verbatim>\<open>srealloc\<close> keeps the bytes of the old block.
\<close>

definition smalloc_row :: "(nat \<Rightarrow> char) \<Rightarrow> nat \<Rightarrow> string" where
  "smalloc_row bytes sz = map bytes [0..<sz]"

definition srealloc_row :: "(nat \<Rightarrow> char) \<Rightarrow> string \<Rightarrow> nat \<Rightarrow> string" where
  "srealloc_row bytes r sz = take sz r @ map bytes [length r..<sz]"

text \<open>
  \<^verbatim>\<open>for (j = 0; j < n; j++) rows[j] = f(j, rows[j])\<close>: an update of the first \<open>n\<close> rows
  that depends on the row index.
\<close>

definition for_rows_idx :: "nat \<Rightarrow> (nat \<Rightarrow> string \<Rightarrow> string) \<Rightarrow> string list \<Rightarrow> string list" where
  "for_rows_idx n f rows = map (\<lambda>j. f j (rows ! j)) [0..<min n (length rows)] @ drop n rows"

text \<open>
  The copy loop of \<^verbatim>\<open>msa_concatenate\<close>, \<^verbatim>\<open>for (i = 0; i < source_msa->length; i++)\<close>:
  column \<open>i\<close> of the source goes to column \<open>i + len\<close> of every row.
\<close>

function concatenate_loop ::
  "nat \<Rightarrow> nat \<Rightarrow> nat \<Rightarrow> string list \<Rightarrow> string list \<Rightarrow> nat \<Rightarrow> string list" where
  "concatenate_loop n len srclen src rows i =
     (if i < srclen then
        concatenate_loop n len srclen src
          (for_rows_idx n (\<lambda>j r. r[i + len := src ! j ! i]) rows) (i + 1)
      else rows)"
  by pat_completeness auto
termination
  by (relation "measure (\<lambda>(n, len, srclen, src, rows, i). srclen - i)") auto

declare concatenate_loop.simps [simp del]

text \<open>
  The first \<open>n\<close> entries of a row table exist, and each of these buffers has at least
  \<open>sz\<close> bytes.
\<close>

definition rows_hold :: "string list \<Rightarrow> nat \<Rightarrow> nat \<Rightarrow> bool" where
  "rows_hold rows n sz \<longleftrightarrow> n \<le> length rows \<and> list_all (\<lambda>r. sz \<le> length r) (take n rows)"

text \<open>
  \<^verbatim>\<open>msa_concatenate\<close>. The rows are allocated afresh when \<open>alloc_len\<close> is 0 (whatever
  they held is dropped), grown by twice the source length when the result does not fit
  \<open>alloc_len\<close>, and used as they are otherwise: the function trusts \<open>alloc_len\<close> and
  never looks at the size of a buffer. The copy loop reads column \<open>i\<close> of every source
  row and writes column \<open>i + length\<close> of every row, and the last loop writes the
  terminator at the new length. These accesses do not depend on the data, so the model
  checks them beforehand: a row buffer that is too short for them is overrun in C, which
  is \<open>Out_of_bounds\<close> here. The sums \<^verbatim>\<open>length + source length\<close>,
  \<^verbatim>\<open>alloc_len + 2 * source length\<close> and \<^verbatim>\<open>alloc_len + 1\<close> are computed in \<^verbatim>\<open>int\<close>.
\<close>

definition msa_concatenate :: "(nat \<Rightarrow> nat \<Rightarrow> char) \<Rightarrow> MSA \<Rightarrow> MSA \<Rightarrow> error + MSA" where
  "msa_concatenate fresh aggregate_msa source_msa =
     (if nseqs aggregate_msa \<noteq> nseqs source_msa then Inl Assertion_failed
      else
        let n = nseqs aggregate_msa;
            len = length_msa aggregate_msa;
            srclen = length_msa source_msa;
            (rows0, alloc0) =
              (case seqs aggregate_msa of
                 None \<Rightarrow> (map (\<lambda>j. []) [0..<n], 0)
               | Some rows \<Rightarrow> (rows, alloc_len aggregate_msa));
            overflow =
              (int_overflows (len + srclen) \<or>
               (alloc0 = 0 \<and> 0 < n \<and> int_overflows (len + srclen + 1)) \<or>
               (alloc0 \<noteq> 0 \<and> len + srclen > alloc0 \<and>
                  (int_overflows (alloc0 + srclen * 2) \<or>
                   (0 < n \<and> int_overflows (alloc0 + srclen * 2 + 1)))));
            (rows1, alloc1) =
              (if alloc0 = 0 then
                 (for_rows_idx n (\<lambda>j r. smalloc_row (fresh j) (len + srclen + 1)) rows0,
                  len + srclen)
               else if len + srclen > alloc0 then
                 (for_rows_idx n (\<lambda>j r. srealloc_row (fresh j) r (alloc0 + srclen * 2 + 1)) rows0,
                  alloc0 + srclen * 2)
               else (rows0, alloc0))
        in if overflow then Inl Integer_overflow
           else
             (case seqs source_msa of
                None \<Rightarrow>
                  if 0 < srclen \<and> 0 < n then Inl Null_dereference
                  else if 0 < n \<and> \<not> rows_hold rows1 n (len + srclen + 1) then Inl Out_of_bounds
                  else Inr (aggregate_msa\<lparr>seqs := Some (for_rows n (\<lambda>r. r[len + srclen := NUL]) rows1),
                              length_msa := len + srclen, alloc_len := alloc1\<rparr>)
              | Some src \<Rightarrow>
                  if 0 < srclen \<and> 0 < n \<and> \<not> rows_hold src n srclen then Inl Out_of_bounds
                  else if 0 < n \<and> \<not> rows_hold rows1 n (len + srclen + 1) then Inl Out_of_bounds
                  else Inr (aggregate_msa\<lparr>seqs := Some (for_rows n (\<lambda>r. r[len + srclen := NUL])
                                                         (concatenate_loop n len srclen src rows1 0)),
                              length_msa := len + srclen, alloc_len := alloc1\<rparr>)))"

text \<open>
  The storage invariant \<^verbatim>\<open>msa_new\<close> sets up and \<^verbatim>\<open>msa_concatenate\<close> maintains: every row
  buffer has \<open>alloc_len + 1\<close> bytes, and the alignment fits.
\<close>

definition allocated :: "MSA \<Rightarrow> bool" where
  "allocated m \<longleftrightarrow>
     length_msa m \<le> alloc_len m \<and>
     (case seqs m of None \<Rightarrow> False
      | Some rows \<Rightarrow> list_all (\<lambda>r. length r = alloc_len m + 1) rows)"

section \<open>Properties of concatenation\<close>

lemma for_rows_idx_length: "length (for_rows_idx n f rows) = length rows"
  by (simp add: for_rows_idx_def min_def)

lemma for_rows_idx_nth:
  "j < length rows \<Longrightarrow>
   for_rows_idx n f rows ! j = (if j < n then f j (rows ! j) else rows ! j)"
  by (auto simp: for_rows_idx_def nth_append min_def)

lemma concatenate_loop_rows:
  assumes "length rows = n" and "i \<le> srclen"
    and "\<forall>j<n. len + srclen \<le> length (rows ! j)"
  shows "length (concatenate_loop n len srclen src rows i) = n \<and>
         (\<forall>j<n. length (concatenate_loop n len srclen src rows i ! j) = length (rows ! j) \<and>
            (\<forall>p<length (rows ! j). concatenate_loop n len srclen src rows i ! j ! p =
               (if len + i \<le> p \<and> p < len + srclen then src ! j ! (p - len) else rows ! j ! p)))"
  using assms
proof (induction "srclen - i" arbitrary: rows i)
  case 0
  then have "concatenate_loop n len srclen src rows i = rows"
    by (subst concatenate_loop.simps) simp
  with 0 show ?case by auto
next
  case (Suc d)
  then have il: "i < srclen" by simp
  let ?rows = "for_rows_idx n (\<lambda>j r. r[i + len := src ! j ! i]) rows"
  have step: "concatenate_loop n len srclen src rows i = concatenate_loop n len srclen src ?rows (i + 1)"
    using il by (subst concatenate_loop.simps) simp
  have nth: "\<And>j. j < n \<Longrightarrow> ?rows ! j = (rows ! j)[i + len := src ! j ! i]"
    using Suc.prems(1) by (simp add: for_rows_idx_nth)
  have l1: "length ?rows = n" using Suc.prems(1) by (simp add: for_rows_idx_length)
  have l2: "\<forall>j<n. len + srclen \<le> length (?rows ! j)" using Suc.prems(3) nth by simp
  have d: "d = srclen - (i + 1)" using Suc.hyps(2) by simp
  note ih = Suc.hyps(1) [OF d l1 _ l2]
  show ?case
    unfolding step
  proof (intro conjI allI impI)
    show "length (concatenate_loop n len srclen src ?rows (i + 1)) = n" using ih il by simp
  next
    fix j assume j: "j < n"
    show "length (concatenate_loop n len srclen src ?rows (i + 1) ! j) = length (rows ! j)"
      using ih il j nth by simp
  next
    fix j p assume j: "j < n" and p: "p < length (rows ! j)"
    have "concatenate_loop n len srclen src ?rows (i + 1) ! j ! p =
          (if len + (i + 1) \<le> p \<and> p < len + srclen then src ! j ! (p - len) else ?rows ! j ! p)"
      using ih il j p nth by simp
    also have "\<dots> = (if len + i \<le> p \<and> p < len + srclen then src ! j ! (p - len) else rows ! j ! p)"
    proof (cases "p = i + len")
      case True
      then have "p - len = i" by simp
      with True show ?thesis using nth [OF j] p il by simp
    next
      case False
      then show ?thesis using nth [OF j] p il by auto
    qed
    finally show "concatenate_loop n len srclen src ?rows (i + 1) ! j ! p =
          (if len + i \<le> p \<and> p < len + srclen then src ! j ! (p - len) else rows ! j ! p)" .
  qed
qed

lemma concatenate_finish:
  assumes r1: "length rows1 = k" and l1: "\<forall>j<k. m + n < length (rows1 ! j)"
    and keep: "\<forall>j<k. \<forall>p<m. rows1 ! j ! p = rowsA ! j ! p"
    and rA: "length rowsA = k" and lA: "\<forall>j<k. m \<le> length (rowsA ! j)"
    and rB: "length rowsB = k" and lB: "\<forall>j<k. n \<le> length (rowsB ! j)"
  shows "map (take (m + n)) (take k (for_rows k (\<lambda>r. r[m + n := NUL])
            (concatenate_loop k m n rowsB rows1 0))) =
         map2 (@) (map (take m) (take k rowsA)) (map (take n) (take k rowsB))"
proof -
  let ?rows2 = "concatenate_loop k m n rowsB rows1 0"
  let ?rows3 = "for_rows k (\<lambda>r. r[m + n := NUL]) ?rows2"
  have l1': "\<forall>j<k. m + n \<le> length (rows1 ! j)" using l1 by (simp add: less_imp_le)
  note loop = concatenate_loop_rows [OF r1 _ l1', of 0 rowsB, simplified]
  have len3: "length ?rows3 = k" using loop by (simp add: for_rows_length)
  show ?thesis
  proof (rule nth_equalityI)
    show "length (map (take (m + n)) (take k ?rows3)) =
          length (map2 (@) (map (take m) (take k rowsA)) (map (take n) (take k rowsB)))"
      using len3 rA rB by simp
  next
    fix j assume "j < length (map (take (m + n)) (take k ?rows3))"
    then have j: "j < k" using len3 by simp
    have r3: "?rows3 ! j = (?rows2 ! j)[m + n := NUL]"
      using loop j by (simp add: for_rows_nth)
    have len2: "length (?rows2 ! j) = length (rows1 ! j)" using loop j by simp
    have "take (m + n) (?rows3 ! j) = take m (rowsA ! j) @ take n (rowsB ! j)"
    proof (rule nth_equalityI)
      show "length (take (m + n) (?rows3 ! j)) = length (take m (rowsA ! j) @ take n (rowsB ! j))"
      proof -
        have "m + n < length (rows1 ! j)" "m \<le> length (rowsA ! j)" "n \<le> length (rowsB ! j)"
          using l1 lA lB j by simp_all
        then show ?thesis using r3 len2 by simp
      qed
    next
      fix p assume "p < length (take (m + n) (?rows3 ! j))"
      then have p: "p < m + n" by simp
      then have pl: "p < length (rows1 ! j)" using l1 j by fastforce
      have "take (m + n) (?rows3 ! j) ! p = ?rows2 ! j ! p" using p r3 by simp
      also have "\<dots> = (if m \<le> p \<and> p < m + n then rowsB ! j ! (p - m) else rows1 ! j ! p)"
        using loop j pl by simp
      also have "\<dots> = (take m (rowsA ! j) @ take n (rowsB ! j)) ! p"
        using p keep lA lB j by (auto simp: nth_append min_def)
      finally show "take (m + n) (?rows3 ! j) ! p = (take m (rowsA ! j) @ take n (rowsB ! j)) ! p" .
    qed
    then show "map (take (m + n)) (take k ?rows3) ! j =
               map2 (@) (map (take m) (take k rowsA)) (map (take n) (take k rowsB)) ! j"
      using j len3 rA rB by simp
  qed
qed

text \<open>
  When the row buffers of A are as \<open>alloc_len\<close> says and the sizes stay below
  \<open>INT_MAX\<close>, \<^verbatim>\<open>msa_concatenate\<close>(A, B) succeeds and leaves A with length \<open>m + n\<close>;
  every row of the result is A's original row followed by B's corresponding row,
  whatever bytes freshly allocated memory contains. B is only read: the function writes
  through the pointers of A alone, and the model returns A alone.
\<close>

lemma msa_concatenate_columns_allocated:
  assumes "explicit_matrix A rowsA" and "allocated A"
    and "explicit_matrix B rowsB" and "nseqs A = nseqs B"
    and "int (alloc_len A) + 2 * int (length_msa B) < INT_MAX"
  shows "\<exists>A'. msa_concatenate fresh A B = Inr A' \<and>
           length_msa A' = length_msa A + length_msa B \<and> nseqs A' = nseqs A \<and>
           matrix A' = map2 (@) (matrix A) (matrix B)"
proof -
  define k where "k = nseqs A"
  define m where "m = length_msa A"
  define n where "n = length_msa B"
  have sA: "seqs A = Some rowsA" and rA: "length rowsA = k"
    and lA: "\<forall>j<k. m \<le> length (rowsA ! j)"
    using assms(1) by (auto simp: explicit_matrix_def list_all_length k_def m_def less_imp_le)
  have sB: "seqs B = Some rowsB" and rB: "length rowsB = k"
    and lB: "\<forall>j<k. n \<le> length (rowsB ! j)"
    using assms(3,4) by (auto simp: explicit_matrix_def list_all_length k_def n_def less_imp_le)
  have al: "m \<le> alloc_len A" and bufA: "\<forall>j<k. length (rowsA ! j) = alloc_len A + 1"
    using assms(2) sA rA by (auto simp: allocated_def list_all_length m_def)
  have fits: "\<not> int_overflows (m + n)" "\<not> int_overflows (m + n + 1)"
    "\<not> int_overflows (alloc_len A + n * 2)" "\<not> int_overflows (alloc_len A + n * 2 + 1)"
    using assms(5) al by (simp_all add: int_overflows_def n_def)
  define step where "step =
     (if alloc_len A = 0 then
        (for_rows_idx k (\<lambda>j r. smalloc_row (fresh j) (m + n + 1)) rowsA, m + n)
      else if m + n > alloc_len A then
        (for_rows_idx k (\<lambda>j r. srealloc_row (fresh j) r (alloc_len A + n * 2 + 1)) rowsA,
         alloc_len A + n * 2)
      else (rowsA, alloc_len A))"
  define rows1 where "rows1 = fst step"
  define alloc1 where "alloc1 = snd step"
  have st: "step = (rows1, alloc1)" by (simp add: rows1_def alloc1_def)
  have r1: "length rows1 = k"
    using rA by (simp add: rows1_def step_def for_rows_idx_length)
  have l1: "\<forall>j<k. m + n < length (rows1 ! j)"
    using rA bufA al
    by (auto simp: rows1_def step_def for_rows_idx_nth smalloc_row_def srealloc_row_def)
  have keep: "\<forall>j<k. \<forall>p<m. rows1 ! j ! p = rowsA ! j ! p"
    using rA bufA al
    by (auto simp: rows1_def step_def for_rows_idx_nth srealloc_row_def nth_append)
  have h1: "rows_hold rows1 k (m + n + 1)"
    using r1 l1 by (auto simp: rows_hold_def list_all_length Suc_le_eq)
  have hB: "rows_hold rowsB k n"
    using rB lB by (simp add: rows_hold_def list_all_length)
  let ?A' = "A\<lparr>seqs := Some (for_rows k (\<lambda>r. r[m + n := NUL]) (concatenate_loop k m n rowsB rows1 0)),
               length_msa := m + n, alloc_len := alloc1\<rparr>"
  have nm: "nseqs A = k" "nseqs B = k" "length_msa A = m" "length_msa B = n"
    using assms(4) by (simp_all add: k_def m_def n_def)
  have run: "msa_concatenate fresh A B = Inr ?A'"
  proof (cases "alloc_len A = 0")
    case True
    then have eq: "rows1 = for_rows_idx k (\<lambda>j r. smalloc_row (fresh j) (m + n + 1)) rowsA"
      "alloc1 = m + n"
      by (simp_all add: rows1_def alloc1_def step_def)
    show ?thesis
      using True fits h1 [unfolded eq] hB
      by (simp add: msa_concatenate_def Let_def nm sA sB eq)
  next
    case False
    show ?thesis
    proof (cases "m + n > alloc_len A")
      case True
      then have eq: "rows1 = for_rows_idx k
                       (\<lambda>j r. srealloc_row (fresh j) r (alloc_len A + n * 2 + 1)) rowsA"
        "alloc1 = alloc_len A + n * 2"
        using False by (simp_all add: rows1_def alloc1_def step_def)
      show ?thesis
        using True False fits h1 [unfolded eq] hB
        by (simp add: msa_concatenate_def Let_def nm sA sB eq)
    next
      case fit: False
      then have eq: "rows1 = rowsA" "alloc1 = alloc_len A"
        using False by (simp_all add: rows1_def alloc1_def step_def)
      show ?thesis
        using fit False fits h1 [unfolded eq] hB
        by (simp add: msa_concatenate_def Let_def nm sA sB eq)
    qed
  qed
  have "matrix ?A' = map2 (@) (map (take m) (take k rowsA)) (map (take n) (take k rowsB))"
    using concatenate_finish [OF r1 l1 keep rA lA rB lB] by (simp add: matrix_def nm)
  also have "\<dots> = map2 (@) (matrix A) (matrix B)"
    using sA sB by (simp add: matrix_def nm)
  finally have "matrix ?A' = map2 (@) (matrix A) (matrix B)" .
  with run show ?thesis by (simp add: nm)
qed

text \<open>The example alignment appended to itself.\<close>

lemma msa_concatenate_example:
  "\<exists>A'. msa_concatenate (\<lambda>j p. CHR ''?'') example_msa example_msa = Inr A' \<and>
         length_msa A' = 10 \<and> nseqs A' = 2 \<and>
         matrix A' = [''AC-GTAC-GT'', ''A-NGGA-NGG'']"
proof -
  have e: "explicit_matrix example_msa [''AC-GT'' @ [NUL], ''A-NGG'' @ [NUL]]"
    by (simp add: explicit_matrix_def example_msa_def)
  have a: "allocated example_msa"
    by (simp add: allocated_def example_msa_def)
  have n: "nseqs example_msa = nseqs example_msa" by simp
  have v: "length_msa example_msa = 5" "nseqs example_msa = 2"
    "matrix example_msa = [''AC-GT'', ''A-NGG'']"
    by (simp_all add: example_msa_def matrix_def)
  have b: "int (alloc_len example_msa) + 2 * int (length_msa example_msa) < INT_MAX"
    by (simp add: example_msa_def INT_MAX_def)
  show ?thesis
    using msa_concatenate_columns_allocated [OF e a e n b, of "\<lambda>j p. CHR ''?''"] by (simp add: v)
qed

section \<open>Reordering rows\<close>

text \<open>
  \<^verbatim>\<open>msa_get_seq_idx\<close>: the index of the first row with the given name, or -1. The C
  loop \<^verbatim>\<open>for (i = 0; retval < 0 && i < msa->nseqs; i++)\<close> stops at the first match.
\<close>

function get_seq_idx_loop :: "string list \<Rightarrow> nat \<Rightarrow> string \<Rightarrow> nat \<Rightarrow> int" where
  "get_seq_idx_loop nms n name i =
     (if i < n then (if name = nms ! i then int i else get_seq_idx_loop nms n name (i + 1))
      else - 1)"
  by pat_completeness auto
termination
  by (relation "measure (\<lambda>(nms, n, name, i). n - i)") auto

declare get_seq_idx_loop.simps [simp del]

definition msa_get_seq_idx :: "MSA \<Rightarrow> string \<Rightarrow> int" where
  "msa_get_seq_idx m name = get_seq_idx_loop (names m) (nseqs m) name 0"

text \<open>
  The first loop of \<^verbatim>\<open>msa_reorder_rows\<close>, over the target order: it fills
  \<^verbatim>\<open>new_to_old\<close> and marks the rows that are referred to. The assertion
  \<^verbatim>\<open>assert(covered[new_to_old[i]] == 0)\<close> stops the process at a second reference.
\<close>

fun cover_loop ::
  "MSA \<Rightarrow> string list \<Rightarrow> int list \<Rightarrow> bool list \<Rightarrow> error + (int list \<times> bool list)" where
  "cover_loop m [] new_to_old covered = Inr (new_to_old, covered)"
| "cover_loop m (t # ts) new_to_old covered =
     (let idx = msa_get_seq_idx m t in
        if idx \<ge> 0 then
          (if covered ! nat idx then Inl Assertion_failed
           else cover_loop m ts (new_to_old @ [idx]) (covered[nat idx := True]))
        else cover_loop m ts (new_to_old @ [idx]) covered)"

text \<open>
  The second loop: the first row that no target name refers to ends the process with
  \<^verbatim>\<open>exit(1)\<close>, after a message that quotes its name.
\<close>

definition missing_from_reorder_list :: "string \<Rightarrow> error" where
  "missing_from_reorder_list name =
     Fatal (''ERROR (msa_reorder_rows): name '' @ [CHR 0x27] @ name @ [CHR 0x27] @
            '' missing from reorder list.'' @ [CHR 0x0A])"

function uncovered_loop :: "MSA \<Rightarrow> bool list \<Rightarrow> nat \<Rightarrow> error option" where
  "uncovered_loop m covered i =
     (if i < nseqs m then
        (if \<not> covered ! i then Some (missing_from_reorder_list (names m ! i))
         else uncovered_loop m covered (i + 1))
      else None)"
  by pat_completeness auto
termination
  by (relation "measure (\<lambda>(m, covered, i). nseqs m - i)") auto

declare uncovered_loop.simps [simp del]

text \<open>
  \<^verbatim>\<open>msa->missing[0]\<close>: the first missing-data character; reading an empty C string
  there gives its terminator.
\<close>

definition missing0 :: "MSA \<Rightarrow> char" where
  "missing0 m = (case missing m of [] \<Rightarrow> NUL | c # cs \<Rightarrow> c)"

text \<open>
  \<^verbatim>\<open>msa_reorder_rows\<close>. A row that a target name refers to is carried over (the pointer
  is copied); every other target name gets a newly allocated row of \<open>length_msa\<close>
  missing-data characters and a terminator, its size \<^verbatim>\<open>msa->length + 1\<close> being computed
  in \<^verbatim>\<open>int\<close>. With a compressed view only, the rows are reordered by
  \<^verbatim>\<open>ss_reorder_rows\<close>.
\<close>

definition msa_reorder_rows :: "MSA \<Rightarrow> string list \<Rightarrow> error + MSA" where
  "msa_reorder_rows m target_order =
     (case cover_loop m target_order [] (replicate (nseqs m) False) of
        Inl e \<Rightarrow> Inl e
      | Inr (new_to_old, covered) \<Rightarrow>
          (case uncovered_loop m covered 0 of
             Some e \<Rightarrow> Inl e
           | None \<Rightarrow>
               let m1 = (if seqs m \<noteq> None \<and> ss m \<noteq> None then m\<lparr>ss := None\<rparr> else m);
                   new_names = map2 (\<lambda>t idx. if idx \<ge> 0 then names m1 ! nat idx else t)
                                 target_order new_to_old
               in (case seqs m1 of
                     Some rows \<Rightarrow>
                       if list_ex (\<lambda>idx. idx < 0) new_to_old \<and>
                          int_overflows (length_msa m1 + 1)
                       then Inl Integer_overflow
                       else
                         Inr (m1\<lparr>names := new_names,
                                 seqs := Some (map (\<lambda>idx. if idx \<ge> 0 then rows ! nat idx
                                                 else replicate (length_msa m1) (missing0 m1) @ [NUL])
                                            new_to_old),
                                 nseqs := length target_order\<rparr>)
                   | None \<Rightarrow>
                       if ss m1 = None then Inl Assertion_failed else Inl Suff_stats_codec)))"

text \<open>Every row has a name.\<close>

definition named :: "MSA \<Rightarrow> bool" where
  "named m \<longleftrightarrow> length (names m) = nseqs m"

section \<open>Properties of the row reorder\<close>

lemma get_seq_idx_loop_cases:
  "get_seq_idx_loop nms n name i = - 1 \<and> (\<forall>j. i \<le> j \<and> j < n \<longrightarrow> nms ! j \<noteq> name) \<or>
   (\<exists>j. get_seq_idx_loop nms n name i = int j \<and> i \<le> j \<and> j < n \<and> nms ! j = name \<and>
        (\<forall>j'. i \<le> j' \<and> j' < j \<longrightarrow> nms ! j' \<noteq> name))"
proof (induction "n - i" arbitrary: i)
  case 0
  then have "get_seq_idx_loop nms n name i = - 1"
    by (subst get_seq_idx_loop.simps) simp
  with 0 show ?case by auto
next
  case (Suc d)
  then have il: "i < n" by simp
  show ?case
  proof (cases "name = nms ! i")
    case True
    then have "get_seq_idx_loop nms n name i = int i"
      using il by (subst get_seq_idx_loop.simps) simp
    with True il show ?thesis by auto
  next
    case False
    have e: "get_seq_idx_loop nms n name i = get_seq_idx_loop nms n name (i + 1)"
      using il False by (subst get_seq_idx_loop.simps) simp
    have d: "d = n - (i + 1)" using Suc.hyps(2) by simp
    from Suc.hyps(1) [OF d] show ?thesis
    proof (elim disjE conjE exE)
      assume a: "get_seq_idx_loop nms n name (i + 1) = - 1"
        "\<forall>j. i + 1 \<le> j \<and> j < n \<longrightarrow> nms ! j \<noteq> name"
      have "\<forall>j. i \<le> j \<and> j < n \<longrightarrow> nms ! j \<noteq> name"
      proof (intro allI impI)
        fix j assume "i \<le> j \<and> j < n"
        then show "nms ! j \<noteq> name" using a(2) False by (cases "j = i") auto
      qed
      with a(1) e show ?thesis by simp
    next
      fix j assume a: "get_seq_idx_loop nms n name (i + 1) = int j" "i + 1 \<le> j" "j < n"
        "nms ! j = name" "\<forall>j'. i + 1 \<le> j' \<and> j' < j \<longrightarrow> nms ! j' \<noteq> name"
      have "\<forall>j'. i \<le> j' \<and> j' < j \<longrightarrow> nms ! j' \<noteq> name"
      proof (intro allI impI)
        fix j' assume "i \<le> j' \<and> j' < j"
        then show "nms ! j' \<noteq> name" using a(5) False by (cases "j' = i") auto
      qed
      with a e show ?thesis by auto
    qed
  qed
qed

lemma msa_get_seq_idx_found:
  assumes "msa_get_seq_idx m name = int j"
  shows "j < nseqs m \<and> names m ! j = name"
  using get_seq_idx_loop_cases [of "names m" "nseqs m" name 0] assms
  by (auto simp: msa_get_seq_idx_def)

lemma msa_get_seq_idx_range: "msa_get_seq_idx m name = - 1 \<or> 0 \<le> msa_get_seq_idx m name"
  using get_seq_idx_loop_cases [of "names m" "nseqs m" name 0]
  by (auto simp: msa_get_seq_idx_def)

lemma msa_get_seq_idx_absent:
  assumes "named m"
  shows "msa_get_seq_idx m name = - 1 \<longleftrightarrow> name \<notin> set (names m)"
  using get_seq_idx_loop_cases [of "names m" "nseqs m" name 0] assms
  by (auto simp: msa_get_seq_idx_def named_def in_set_conv_nth)

lemma msa_get_seq_idx_distinct:
  assumes "named m" and "distinct (names m)" and "j < nseqs m"
  shows "msa_get_seq_idx m (names m ! j) = int j"
proof -
  from get_seq_idx_loop_cases [of "names m" "nseqs m" "names m ! j" 0]
  show ?thesis
  proof (elim disjE conjE exE)
    assume "\<forall>j'. 0 \<le> j' \<and> j' < nseqs m \<longrightarrow> names m ! j' \<noteq> names m ! j"
    with assms(3) show ?thesis by blast
  next
    fix j' assume a: "get_seq_idx_loop (names m) (nseqs m) (names m ! j) 0 = int j'"
      "j' < nseqs m" "names m ! j' = names m ! j"
    then have "j' = j" using assms by (simp add: named_def nth_eq_iff_index_eq)
    with a(1) show ?thesis by (simp add: msa_get_seq_idx_def)
  qed
qed

lemma cover_loop_result:
  "cover_loop m ts n2o cov = Inr (n2o', cov') \<Longrightarrow>
   n2o' = n2o @ map (msa_get_seq_idx m) ts \<and> length cov' = length cov \<and>
   (\<forall>j<length cov. cov' ! j \<longleftrightarrow> cov ! j \<or> (\<exists>t\<in>set ts. msa_get_seq_idx m t = int j))"
proof (induction ts arbitrary: n2o cov)
  case Nil
  then show ?case by simp
next
  case (Cons t ts)
  show ?case
  proof (cases "msa_get_seq_idx m t \<ge> 0")
    case False
    then have neg: "\<And>j. msa_get_seq_idx m t \<noteq> int j" by auto
    from Cons.prems False
    have "cover_loop m ts (n2o @ [msa_get_seq_idx m t]) cov = Inr (n2o', cov')"
      by (simp add: Let_def)
    from Cons.IH [OF this] show ?thesis by (simp add: neg)
  next
    case True
    then obtain i where i: "msa_get_seq_idx m t = int i"
      by (metis nonneg_int_cases)
    from Cons.prems i have free: "\<not> cov ! i"
      by (auto simp: Let_def split: if_splits)
    from Cons.prems i free
    have "cover_loop m ts (n2o @ [int i]) (cov[i := True]) = Inr (n2o', cov')"
      by (simp add: Let_def)
    from Cons.IH [OF this]
    have r: "n2o' = (n2o @ [int i]) @ map (msa_get_seq_idx m) ts" "length cov' = length cov"
      "\<forall>j<length cov. cov' ! j \<longleftrightarrow> cov[i := True] ! j \<or> (\<exists>t\<in>set ts. msa_get_seq_idx m t = int j)"
      by simp_all
    have "\<forall>j<length cov. cov' ! j \<longleftrightarrow> cov ! j \<or> (\<exists>t'\<in>set (t # ts). msa_get_seq_idx m t' = int j)"
    proof (intro allI impI)
      fix j assume j: "j < length cov"
      show "cov' ! j \<longleftrightarrow> cov ! j \<or> (\<exists>t'\<in>set (t # ts). msa_get_seq_idx m t' = int j)"
        using r(3) j i by (cases "j = i") (auto simp: nth_list_update)
    qed
    with r(1,2) i show ?thesis by simp
  qed
qed

lemma cover_loop_succeeds:
  "distinct (filter (\<lambda>t. msa_get_seq_idx m t \<ge> 0) ts) \<Longrightarrow>
   (\<forall>t\<in>set ts. \<forall>j. msa_get_seq_idx m t = int j \<longrightarrow> \<not> cov ! j) \<Longrightarrow>
   \<exists>r. cover_loop m ts n2o cov = Inr r"
proof (induction ts arbitrary: n2o cov)
  case Nil
  then show ?case by simp
next
  case (Cons t ts)
  show ?case
  proof (cases "msa_get_seq_idx m t \<ge> 0")
    case False
    then show ?thesis using Cons.IH [of cov] Cons.prems by (simp add: Let_def)
  next
    case True
    then obtain i where i: "msa_get_seq_idx m t = int i"
      by (metis nonneg_int_cases)
    have free: "\<not> cov ! i" using Cons.prems(2) i by simp
    have once: "t \<notin> set (filter (\<lambda>t. msa_get_seq_idx m t \<ge> 0) ts)"
      and rest: "distinct (filter (\<lambda>t. msa_get_seq_idx m t \<ge> 0) ts)"
      using Cons.prems(1) True by simp_all
    have "\<forall>t'\<in>set ts. \<forall>j. msa_get_seq_idx m t' = int j \<longrightarrow> \<not> cov[i := True] ! j"
    proof (intro ballI allI impI)
      fix t' j assume t': "t' \<in> set ts" and j: "msa_get_seq_idx m t' = int j"
      have "t' \<noteq> t" using t' j once by auto
      then have "j \<noteq> i" using msa_get_seq_idx_found [OF i] msa_get_seq_idx_found [OF j] by auto
      moreover have "\<not> cov ! j" using Cons.prems(2) t' j by simp
      ultimately show "\<not> cov[i := True] ! j" by simp
    qed
    with Cons.IH [OF rest, of "cov[i := True]"] i free show ?thesis
      by (simp add: Let_def)
  qed
qed

lemma uncovered_loop_None:
  "uncovered_loop m cov i = None \<longleftrightarrow> (\<forall>j. i \<le> j \<and> j < nseqs m \<longrightarrow> cov ! j)"
proof (induction "nseqs m - i" arbitrary: i)
  case 0
  then have "uncovered_loop m cov i = None" by (subst uncovered_loop.simps) simp
  moreover have "\<not> (\<exists>j. i \<le> j \<and> j < nseqs m)" using 0 by auto
  ultimately show ?case by blast
next
  case (Suc d)
  then have il: "i < nseqs m" by simp
  show ?case
  proof (cases "cov ! i")
    case False
    then have "uncovered_loop m cov i \<noteq> None"
      using il by (subst uncovered_loop.simps) simp
    with False il show ?thesis by auto
  next
    case True
    have "uncovered_loop m cov i = uncovered_loop m cov (i + 1)"
      using il True by (subst uncovered_loop.simps) simp
    also have "\<dots> = None \<longleftrightarrow> (\<forall>j. i + 1 \<le> j \<and> j < nseqs m \<longrightarrow> cov ! j)"
      using Suc by simp
    also have "\<dots> \<longleftrightarrow> (\<forall>j. i \<le> j \<and> j < nseqs m \<longrightarrow> cov ! j)"
      using True by (metis Suc_eq_plus1 Suc_leD Suc_leI le_neq_implies_less)
    finally show ?thesis .
  qed
qed

lemma msa_reorder_rows_omitted:
  assumes "named m" and "i < nseqs m" and "names m ! i \<notin> set target_order"
  shows "\<exists>e. msa_reorder_rows m target_order = Inl e"
proof (cases "cover_loop m target_order [] (replicate (nseqs m) False)")
  case (Inl e)
  then show ?thesis by (simp add: msa_reorder_rows_def)
next
  case (Inr r)
  obtain n2o cov where r: "r = (n2o, cov)" by (cases r)
  from cover_loop_result [OF Inr [unfolded r]] assms(2)
  have "cov ! i \<longleftrightarrow> (\<exists>t\<in>set target_order. msa_get_seq_idx m t = int i)" by simp
  moreover have "\<not> (\<exists>t\<in>set target_order. msa_get_seq_idx m t = int i)"
    using msa_get_seq_idx_found assms(3) by blast
  ultimately have "\<not> cov ! i" by simp
  then have "uncovered_loop m cov 0 \<noteq> None"
    using assms(2) by (auto simp: uncovered_loop_None)
  then show ?thesis using Inr r by (auto simp: msa_reorder_rows_def)
qed

lemma msa_reorder_rows_superset:
  assumes "explicit_matrix m rows" and "named m" and "distinct (names m)"
    and "distinct (filter (\<lambda>t. t \<in> set (names m)) target_order)"
    and "set (names m) \<subseteq> set target_order"
    and "int (length_msa m) < INT_MAX"
  shows "\<exists>m'. msa_reorder_rows m target_order = Inr m' \<and>
           nseqs m' = length target_order \<and> names m' = target_order \<and>
           length_msa m' = length_msa m \<and>
           seqs m' = Some (map (\<lambda>t. case map_of (zip (names m) rows) t of
                                      Some r \<Rightarrow> r
                                    | None \<Rightarrow> replicate (length_msa m) (missing0 m) @ [NUL])
                             target_order)"
proof -
  have s: "seqs m = Some rows" and lr: "length rows = nseqs m"
    using assms(1) by (simp_all add: explicit_matrix_def)
  have ln: "length (names m) = nseqs m" using assms(2) by (simp add: named_def)
  have "(\<lambda>t. msa_get_seq_idx m t \<ge> 0) = (\<lambda>t. t \<in> set (names m))"
  proof (rule ext)
    fix t
    show "(msa_get_seq_idx m t \<ge> 0) = (t \<in> set (names m))"
      using msa_get_seq_idx_absent [OF assms(2), of t] msa_get_seq_idx_range [of m t] by auto
  qed
  then have once: "distinct (filter (\<lambda>t. msa_get_seq_idx m t \<ge> 0) target_order)"
    using assms(4) by simp
  obtain r where r: "cover_loop m target_order [] (replicate (nseqs m) False) = Inr r"
    using cover_loop_succeeds [OF once, of "replicate (nseqs m) False" "[]"]
      msa_get_seq_idx_found by fastforce
  obtain n2o cov where rc: "r = (n2o, cov)" by (cases r)
  from cover_loop_result [OF r [unfolded rc]]
  have n2o: "n2o = map (msa_get_seq_idx m) target_order"
    and cov: "\<forall>j<nseqs m. cov ! j \<longleftrightarrow> (\<exists>t\<in>set target_order. msa_get_seq_idx m t = int j)"
    by simp_all
  have "\<forall>j. 0 \<le> j \<and> j < nseqs m \<longrightarrow> cov ! j"
  proof (intro allI impI)
    fix j assume j: "0 \<le> j \<and> j < nseqs m"
    then have "names m ! j \<in> set target_order" using assms(5) ln by auto
    moreover have "msa_get_seq_idx m (names m ! j) = int j"
      using msa_get_seq_idx_distinct [OF assms(2,3)] j by simp
    ultimately show "cov ! j" using cov j by blast
  qed
  then have unc: "uncovered_loop m cov 0 = None" by (simp add: uncovered_loop_None)
  define m1 where "m1 = (if seqs m \<noteq> None \<and> ss m \<noteq> None then m\<lparr>ss := None\<rparr> else m)"
  have m1: "seqs m1 = Some rows" "names m1 = names m" "length_msa m1 = length_msa m"
    "missing0 m1 = missing0 m"
    using s by (auto simp: m1_def missing0_def)
  have nm: "map2 (\<lambda>t idx. if idx \<ge> 0 then names m ! nat idx else t) target_order
               (map (msa_get_seq_idx m) target_order) = target_order"
  proof (rule nth_equalityI)
    fix k assume "k < length (map2 (\<lambda>t idx. if idx \<ge> 0 then names m ! nat idx else t) target_order
               (map (msa_get_seq_idx m) target_order))"
    then have k: "k < length target_order" by simp
    show "map2 (\<lambda>t idx. if idx \<ge> 0 then names m ! nat idx else t) target_order
               (map (msa_get_seq_idx m) target_order) ! k = target_order ! k"
    proof (cases "msa_get_seq_idx m (target_order ! k) \<ge> 0")
      case True
      then obtain i where i: "msa_get_seq_idx m (target_order ! k) = int i"
        by (metis nonneg_int_cases)
      then show ?thesis using k msa_get_seq_idx_found [OF i] by simp
    next
      case False
      then show ?thesis using k by simp
    qed
  qed simp
  have rw: "map (\<lambda>idx. if idx \<ge> 0 then rows ! nat idx
                      else replicate (length_msa m) (missing0 m) @ [NUL])
              (map (msa_get_seq_idx m) target_order) =
            map (\<lambda>t. case map_of (zip (names m) rows) t of
                       Some r \<Rightarrow> r
                     | None \<Rightarrow> replicate (length_msa m) (missing0 m) @ [NUL]) target_order"
    unfolding map_map comp_def
  proof (rule map_cong [OF refl])
    fix t
    show "(if msa_get_seq_idx m t \<ge> 0 then rows ! nat (msa_get_seq_idx m t)
           else replicate (length_msa m) (missing0 m) @ [NUL]) =
          (case map_of (zip (names m) rows) t of
             Some r \<Rightarrow> r
           | None \<Rightarrow> replicate (length_msa m) (missing0 m) @ [NUL])"
    proof (cases "msa_get_seq_idx m t \<ge> 0")
      case True
      then obtain i where i: "msa_get_seq_idx m t = int i"
        by (metis nonneg_int_cases)
      from msa_get_seq_idx_found [OF i] have "i < nseqs m" "names m ! i = t" by simp_all
      then have "map_of (zip (names m) rows) t = Some (rows ! i)"
        using map_of_zip_nth [of "names m" rows i] ln lr assms(3) by auto
      with i show ?thesis by simp
    next
      case False
      then have "msa_get_seq_idx m t = - 1" using msa_get_seq_idx_range [of m t] by auto
      then have "t \<notin> set (names m)" using msa_get_seq_idx_absent [OF assms(2)] by simp
      then have "map_of (zip (names m) rows) t = None"
        using ln lr by (simp add: map_of_zip_is_None)
      with False show ?thesis by simp
    qed
  qed
  let ?synth = "replicate (length_msa m) (missing0 m) @ [NUL]"
  let ?m' = "m1\<lparr>names := map2 (\<lambda>t idx. if idx \<ge> 0 then names m ! nat idx else t)
                          target_order (map (msa_get_seq_idx m) target_order),
               seqs := Some (map (\<lambda>idx. if idx \<ge> 0 then rows ! nat idx else ?synth)
                               (map (msa_get_seq_idx m) target_order)),
               nseqs := length target_order\<rparr>"
  have no: "\<not> int_overflows (length_msa m + 1)"
    using assms(6) by (simp add: int_overflows_def)
  have run: "msa_reorder_rows m target_order = Inr ?m'"
    unfolding msa_reorder_rows_def m1_def [symmetric] r rc n2o
    by (simp only: sum.case prod.case unc option.case Let_def m1 no simp_thms if_False)
  have "names ?m' = target_order" by (subst nm) simp
  moreover have "seqs ?m' = Some (map (\<lambda>t. case map_of (zip (names m) rows) t of
                                      Some r \<Rightarrow> r | None \<Rightarrow> ?synth) target_order)"
    by (subst rw) simp
  moreover have "nseqs ?m' = length target_order" "length_msa ?m' = length_msa m"
    by (simp_all add: m1)
  ultimately show ?thesis using run by blast
qed

text \<open>
  C7, as the claim states it, fails. A target order that repeats the name of a current
  row is a strict superset of the current names, yet the second reference stops the
  call at \<^verbatim>\<open>assert(covered[new_to_old[i]] == 0)\<close>. And when two rows carry the same
  name, \<^verbatim>\<open>msa_get_seq_idx\<close> finds the first of them only: the second is never covered
  and the call ends in \<^verbatim>\<open>exit(1)\<close>, although the target order contains every name.
\<close>

theorem msa_reorder_rows_repeated_name_counterexample:
  "set (names example_msa) \<subset> set [''human'', ''mouse'', ''human'', ''rat''] \<and>
   msa_reorder_rows example_msa [''human'', ''mouse'', ''human'', ''rat''] =
     Inl Assertion_failed \<and>
   set (names (example_msa\<lparr>names := [''human'', ''human'']\<rparr>)) \<subset> set [''human'', ''rat''] \<and>
   msa_reorder_rows (example_msa\<lparr>names := [''human'', ''human'']\<rparr>) [''human'', ''rat''] =
     Inl (missing_from_reorder_list ''human'')"
  by code_simp

text \<open>
  C7 (amended): \<^verbatim>\<open>msa_reorder_rows\<close> with a target order that omits the name of an
  existing row fails (the process is stopped, by \<^verbatim>\<open>exit(1)\<close> or by the assertion on
  double references). When the rows have distinct names and the target order contains
  every one of them exactly once, whatever other names it lists and however often (a
  strict superset in particular), it succeeds: the alignment gets one row per entry of
  the target order, under that name; a name of the old alignment keeps its row, and
  every other entry gets a synthesized row of \<open>length_msa\<close> missing-data characters
  (followed by the terminator). This is stated for alignments of fewer than \<open>INT_MAX\<close>
  columns, the size of a synthesized row being \<^verbatim>\<open>msa->length + 1\<close>.
\<close>

theorem msa_reorder_rows_target_order:
  "(named m \<and> (\<exists>i<nseqs m. names m ! i \<notin> set target_order) \<longrightarrow>
      (\<exists>e. msa_reorder_rows m target_order = Inl e)) \<and>
   (explicit_matrix m rows \<and> named m \<and> distinct (names m) \<and>
    distinct (filter (\<lambda>t. t \<in> set (names m)) target_order) \<and>
    set (names m) \<subseteq> set target_order \<and> int (length_msa m) < INT_MAX \<longrightarrow>
      (\<exists>m'. msa_reorder_rows m target_order = Inr m' \<and>
            nseqs m' = length target_order \<and> names m' = target_order \<and>
            length_msa m' = length_msa m \<and>
            seqs m' = Some (map (\<lambda>t. case map_of (zip (names m) rows) t of
                                       Some r \<Rightarrow> r
                                     | None \<Rightarrow> replicate (length_msa m) (missing0 m) @ [NUL])
                              target_order)))"
proof (intro conjI impI)
  assume "named m \<and> (\<exists>i<nseqs m. names m ! i \<notin> set target_order)"
  then show "\<exists>e. msa_reorder_rows m target_order = Inl e"
    using msa_reorder_rows_omitted by blast
next
  assume "explicit_matrix m rows \<and> named m \<and> distinct (names m) \<and>
    distinct (filter (\<lambda>t. t \<in> set (names m)) target_order) \<and>
    set (names m) \<subseteq> set target_order \<and> int (length_msa m) < INT_MAX"
  then show "\<exists>m'. msa_reorder_rows m target_order = Inr m' \<and>
            nseqs m' = length target_order \<and> names m' = target_order \<and>
            length_msa m' = length_msa m \<and>
            seqs m' = Some (map (\<lambda>t. case map_of (zip (names m) rows) t of
                                       Some r \<Rightarrow> r
                                     | None \<Rightarrow> replicate (length_msa m) (missing0 m) @ [NUL])
                              target_order)"
    using msa_reorder_rows_superset by blast
qed

theorem msa_reorder_rows_target_order_witness:
  "(\<exists>e. msa_reorder_rows example_msa [''mouse''] = Inl e) \<and>
   (\<exists>m'. msa_reorder_rows example_msa [''rat'', ''mouse'', ''human'', ''rat''] = Inr m' \<and>
         nseqs m' = 4 \<and> names m' = [''rat'', ''mouse'', ''human'', ''rat''] \<and>
         length_msa m' = 5 \<and>
         seqs m' = Some [''*****'' @ [NUL], ''A-NGG'' @ [NUL], ''AC-GT'' @ [NUL],
                         ''*****'' @ [NUL]])"
proof -
  let ?rows = "[''AC-GT'' @ [NUL], ''A-NGG'' @ [NUL]]"
  have e: "explicit_matrix example_msa ?rows"
    by (simp add: explicit_matrix_def example_msa_def)
  have n: "named example_msa" by (simp add: named_def example_msa_def)
  have v: "names example_msa = [''human'', ''mouse'']" "nseqs example_msa = 2"
    "length_msa example_msa = 5" "missing0 example_msa = CHR ''*''"
    by (simp_all add: example_msa_def missing0_def DEFAULT_MDATA_CHARS_def)
  have rep: "replicate 5 (CHR ''*'') = ''*****''" by (simp add: eval_nat_numeral)
  have bound: "int (length_msa example_msa) < INT_MAX"
    by (simp add: example_msa_def INT_MAX_def)
  have four: "Suc (Suc (Suc (Suc 0))) = 4" by simp
  have omit: "\<exists>i<nseqs example_msa. names example_msa ! i \<notin> set [''mouse'']"
    unfolding v by (rule exI [of _ 0]) simp
  have "\<exists>e. msa_reorder_rows example_msa [''mouse''] = Inl e"
    using msa_reorder_rows_target_order [of example_msa "[''mouse'']"] n omit by blast
  moreover have "\<exists>m'. msa_reorder_rows example_msa [''rat'', ''mouse'', ''human'', ''rat''] = Inr m' \<and>
         nseqs m' = 4 \<and> names m' = [''rat'', ''mouse'', ''human'', ''rat''] \<and>
         length_msa m' = 5 \<and>
         seqs m' = Some [''*****'' @ [NUL], ''A-NGG'' @ [NUL], ''AC-GT'' @ [NUL],
                         ''*****'' @ [NUL]]"
    using msa_reorder_rows_target_order
            [of example_msa "[''rat'', ''mouse'', ''human'', ''rat'']" ?rows] e n bound
    by (simp add: v rep four)
  ultimately show ?thesis by blast
qed

text \<open>What the failing call reports on the example.\<close>

lemma msa_reorder_rows_example_omitted:
  "msa_reorder_rows example_msa [''mouse''] = Inl (missing_from_reorder_list ''human'')"
  by (simp add: msa_reorder_rows_def example_msa_def msa_get_seq_idx_def
      get_seq_idx_loop.simps uncovered_loop.simps Let_def)

section \<open>Concatenation after a row reorder\<close>

text \<open>
  \<^verbatim>\<open>msa_strip_gaps\<close> shortens an alignment and leaves \<open>alloc_len\<close> as it was;
  \<^verbatim>\<open>msa_reorder_rows\<close> then allocates \<open>length + 1\<close> bytes for a synthesized row, not
  \<open>alloc_len + 1\<close>. On the example: stripping leaves three columns in buffers of six
  bytes, and the row synthesized for a third name has four bytes.
\<close>

definition stripped_msa :: MSA where
  "stripped_msa =
     \<lparr>seqs = Some [''AGTGT'' @ [NUL], ''AGGGG'' @ [NUL]], names = [''human'', ''mouse''],
      nseqs = 2, length_msa = 3, alphabet = DEFAULT_ALPHABET, missing = DEFAULT_MDATA_CHARS,
      categories = None, ncats = - 1, alloc_len = 5, idx_offset = 0, ss = None\<rparr>"

definition reordered_msa :: MSA where
  "reordered_msa =
     \<lparr>seqs = Some [''AGTGT'' @ [NUL], ''AGGGG'' @ [NUL], ''***'' @ [NUL]],
      names = [''human'', ''mouse'', ''rat''],
      nseqs = 3, length_msa = 3, alphabet = DEFAULT_ALPHABET, missing = DEFAULT_MDATA_CHARS,
      categories = None, ncats = - 1, alloc_len = 5, idx_offset = 0, ss = None\<rparr>"

text \<open>An alignment of three rows and two columns, to be appended.\<close>

definition two_columns_msa :: MSA where
  "two_columns_msa =
     \<lparr>seqs = Some [''CA'' @ [NUL], ''CA'' @ [NUL], ''CA'' @ [NUL]],
      names = [''human'', ''mouse'', ''rat''],
      nseqs = 3, length_msa = 2, alphabet = DEFAULT_ALPHABET, missing = DEFAULT_MDATA_CHARS,
      categories = None, ncats = - 1, alloc_len = 2, idx_offset = 0, ss = None\<rparr>"

lemma msa_strip_gaps_example_msa:
  "msa_strip_gaps example_msa STRIP_ANY_GAPS = Inr stripped_msa"
  by code_simp

lemma msa_reorder_rows_stripped_msa:
  "msa_reorder_rows stripped_msa [''human'', ''mouse'', ''rat''] = Inr reordered_msa"
  by code_simp

text \<open>
  C8 fails on an alignment that the library itself produces. After \<^verbatim>\<open>msa_strip_gaps\<close>
  and \<^verbatim>\<open>msa_reorder_rows\<close> the example has three rows of length 3, an explicit matrix
  and \<open>alloc_len\<close> 5. Appending two columns gives length 5, which fits \<open>alloc_len\<close>, so
  \<^verbatim>\<open>msa_concatenate\<close> allocates nothing and writes columns 3 and 4 and the terminator
  at 5 into every row: the synthesized row of four bytes is overrun, whatever freshly
  allocated memory contains.
\<close>

theorem msa_concatenate_overruns_synthesized_row:
  "msa_strip_gaps example_msa STRIP_ANY_GAPS = Inr stripped_msa \<and>
   msa_reorder_rows stripped_msa [''human'', ''mouse'', ''rat''] = Inr reordered_msa \<and>
   explicit_matrix reordered_msa [''AGTGT'' @ [NUL], ''AGGGG'' @ [NUL], ''***'' @ [NUL]] \<and>
   explicit_matrix two_columns_msa [''CA'' @ [NUL], ''CA'' @ [NUL], ''CA'' @ [NUL]] \<and>
   nseqs reordered_msa = nseqs two_columns_msa \<and>
   msa_concatenate fresh reordered_msa two_columns_msa = Inl Out_of_bounds"
proof -
  have "explicit_matrix reordered_msa [''AGTGT'' @ [NUL], ''AGGGG'' @ [NUL], ''***'' @ [NUL]]"
    by (simp add: explicit_matrix_def reordered_msa_def)
  moreover have
    "explicit_matrix two_columns_msa [''CA'' @ [NUL], ''CA'' @ [NUL], ''CA'' @ [NUL]]"
    by (simp add: explicit_matrix_def two_columns_msa_def)
  moreover have "nseqs reordered_msa = nseqs two_columns_msa"
    by (simp add: reordered_msa_def two_columns_msa_def)
  moreover have "msa_concatenate fresh reordered_msa two_columns_msa = Inl Out_of_bounds"
    by code_simp
  ultimately show ?thesis
    using msa_strip_gaps_example_msa msa_reorder_rows_stripped_msa by simp
qed

section \<open>Coordinate maps\<close>

text \<open>
  \<^verbatim>\<open>msa_coord_map\<close>: for every maximal run of non-gap characters of the reference row,
  the 1-based alignment position (\<open>msa_list\<close>) and the 1-based sequence position
  (\<open>seq_list\<close>) at which the run begins.
\<close>

record msa_coord_map =
  msa_list :: "int list"
  seq_list :: "int list"
  msa_len :: int
  seq_len :: int

text \<open>
  The scan of \<^verbatim>\<open>msa_build_coord_map\<close>, \<^verbatim>\<open>for (i = 0; i < msa->length; i++)\<close>, over the
  reference row: \<open>j\<close> counts the non-gap characters seen, and a non-gap character
  that follows a gap (or starts the row) pushes an anchor pair. Here \<open>j \<le> i\<close> and
  \<open>i\<close> is below \<^verbatim>\<open>msa->length\<close>, itself an \<^verbatim>\<open>int\<close>, so neither \<open>i + 1\<close> nor \<open>j + 1\<close>
  overflows.
\<close>

function build_coord_map_loop ::
  "string \<Rightarrow> nat \<Rightarrow> nat \<Rightarrow> nat \<Rightarrow> bool \<Rightarrow> int list \<Rightarrow> int list \<Rightarrow> nat \<times> int list \<times> int list" where
  "build_coord_map_loop row len i j last_char_gap ml sl =
     (if i < len then
        (let c = row ! i in
           if c = GAP_CHAR then build_coord_map_loop row len (i + 1) j True ml sl
           else build_coord_map_loop row len (i + 1) (j + 1) False
                  (if last_char_gap then ml @ [int i + 1] else ml)
                  (if last_char_gap then sl @ [int j + 1] else sl))
      else (j, ml, sl))"
  by pat_completeness auto
termination
  by (relation "measure (\<lambda>(row, len, i, j, g, ml, sl). len - i)") auto

declare build_coord_map_loop.simps [simp del]

text \<open>
  \<^verbatim>\<open>msa_build_coord_map\<close>; \<open>refseq\<close> counts rows from 1. The function asserts that one
  of the two views exists; with the compressed view alone each character comes from
  \<^verbatim>\<open>ss_get_char_pos\<close>. The row index is not checked in C.
\<close>

definition msa_build_coord_map :: "MSA \<Rightarrow> int \<Rightarrow> error + msa_coord_map" where
  "msa_build_coord_map m refseq =
     (if seqs m = None \<and> ss m = None then Inl Assertion_failed
      else if length_msa m = 0 then
        Inr \<lparr>msa_list = [], seq_list = [], msa_len = 0, seq_len = 0\<rparr>
      else (case seqs m of
              None \<Rightarrow> Inl Suff_stats_codec
            | Some rows \<Rightarrow>
                if \<not> (1 \<le> refseq \<and> refseq \<le> int (length rows)) then Inl Out_of_bounds
                else (case build_coord_map_loop (rows ! nat (refseq - 1)) (length_msa m)
                             0 0 True [] [] of
                        (j, ml, sl) \<Rightarrow>
                          Inr \<lparr>msa_list = ml, seq_list = sl,
                               msa_len = int (length_msa m), seq_len = int j\<rparr>)))"

text \<open>
  Modelled from the spec: \<^verbatim>\<open>lst_bsearch_int\<close> of lists.c, which is not among the sources.
  The spec describes its use as a "binary search in \<open>seq_list\<close> for the governing
  anchor", with "no governing anchor" as a negative result: on an ascending list it is
  the index of the last element that is at most the value, and -1 when the value is
  below every element. The model finds that index by a scan from the left.
\<close>

fun lst_bsearch_int :: "int list \<Rightarrow> int \<Rightarrow> int" where
  "lst_bsearch_int [] val = - 1"
| "lst_bsearch_int (x # xs) val = (if val < x then - 1 else 1 + lst_bsearch_int xs val)"

text \<open>
  \<^verbatim>\<open>msa_map_seq_to_msa\<close>: -1 for a position outside \<open>[1, seq_len]\<close>; the assertion on
  the index found is kept.
\<close>

definition msa_map_seq_to_msa :: "msa_coord_map \<Rightarrow> int \<Rightarrow> error + int" where
  "msa_map_seq_to_msa cmap seq_pos =
     (if seq_pos < 1 \<or> seq_pos > seq_len cmap then Inr (- 1)
      else
        let idx = lst_bsearch_int (seq_list cmap) seq_pos in
          if \<not> (idx \<ge> 0 \<and> idx < int (length (msa_list cmap))) then Inl Assertion_failed
          else if \<not> idx < int (length (seq_list cmap)) then Inl Out_of_bounds
          else
            let prec_match_msa_pos = msa_list cmap ! nat idx;
                prec_match_seq_pos = seq_list cmap ! nat idx
            in Inr (int_wrap (prec_match_msa_pos + int_wrap (seq_pos - prec_match_seq_pos))))"

text \<open>
  \<^verbatim>\<open>msa_map_msa_to_seq\<close>: -1 outside \<open>[1, msa_len]\<close> or before the first anchor; a
  position inside a gap run is mapped to the sequence position just before the gap.
  Beyond the last anchor the bound of the run is \<^verbatim>\<open>map->seq_len + 1\<close>, computed in
  \<^verbatim>\<open>int\<close>.
\<close>

definition msa_map_msa_to_seq :: "msa_coord_map \<Rightarrow> int \<Rightarrow> error + int" where
  "msa_map_msa_to_seq cmap msa_pos =
     (if msa_pos < 1 \<or> msa_pos > msa_len cmap then Inr (- 1)
      else
        let idx = lst_bsearch_int (msa_list cmap) msa_pos in
          if idx < 0 then Inr (- 1)
          else if \<not> idx < int (length (msa_list cmap)) then Inl Assertion_failed
          else if \<not> idx < int (length (seq_list cmap)) then Inl Out_of_bounds
          else
            let prec_match_msa_pos = msa_list cmap ! nat idx;
                prec_match_seq_pos = seq_list cmap ! nat idx;
                next_match_seq_pos =
                  (if idx < int (length (seq_list cmap)) - 1 then seq_list cmap ! nat (idx + 1)
                   else int_wrap (seq_len cmap + 1));
                seq_pos = int_wrap (prec_match_seq_pos + int_wrap (msa_pos - prec_match_msa_pos))
            in Inr (if seq_pos \<ge> next_match_seq_pos then int_wrap (next_match_seq_pos - 1)
                    else seq_pos))"

section \<open>Properties of coordinate maps\<close>

lemma lst_bsearch_int_governs:
  "xs \<noteq> [] \<Longrightarrow> hd xs \<le> v \<Longrightarrow>
   \<exists>k<length xs. lst_bsearch_int xs v = int k \<and> xs ! k \<le> v \<and>
     (k + 1 < length xs \<longrightarrow> v < xs ! (k + 1))"
proof (induction xs)
  case Nil
  then show ?case by simp
next
  case (Cons x xs)
  show ?case
  proof (cases "xs = [] \<or> v < hd xs")
    case True
    then have "lst_bsearch_int xs v = - 1" by (cases xs) auto
    with Cons.prems True show ?thesis
      by (intro exI [of _ 0]) (auto simp: hd_conv_nth)
  next
    case False
    with Cons.IH obtain k where k: "k < length xs" "lst_bsearch_int xs v = int k" "xs ! k \<le> v"
      "k + 1 < length xs \<longrightarrow> v < xs ! (k + 1)" by auto
    with Cons.prems show ?thesis
      by (intro exI [of _ "Suc k"]) auto
  qed
qed

lemma lst_bsearch_int_unique:
  "sorted_wrt (<) xs \<Longrightarrow> k < length xs \<Longrightarrow> xs ! k \<le> v \<Longrightarrow>
   (k + 1 < length xs \<longrightarrow> v < xs ! (k + 1)) \<Longrightarrow> lst_bsearch_int xs v = int k"
proof (induction xs arbitrary: k)
  case Nil
  then show ?case by simp
next
  case (Cons x xs)
  show ?case
  proof (cases k)
    case 0
    with Cons.prems have "xs = [] \<or> v < hd xs" by (cases xs) auto
    then have "lst_bsearch_int xs v = - 1" by (cases xs) auto
    with 0 Cons.prems show ?thesis by simp
  next
    case (Suc k')
    with Cons.prems have "x < xs ! k'" by auto
    moreover have "xs ! k' \<le> v" using Suc Cons.prems by simp
    ultimately have "\<not> v < x" by linarith
    moreover have "lst_bsearch_int xs v = int k'"
      using Cons.IH [of k'] Cons.prems Suc by simp
    ultimately show ?thesis using Suc by simp
  qed
qed

text \<open>
  The invariant of the scan after \<open>i\<close> columns and \<open>j\<close> non-gap characters: both
  lists have one entry per run; alignment positions lie in \<open>[1, i]\<close>; from one anchor to
  the next the alignment position grows by more than the sequence position, which grows;
  the first sequence position is 1; and the run that the last anchor starts fits in the
  columns seen, strictly when the last column was a gap.
\<close>

definition anchors_ok :: "int list \<Rightarrow> int list \<Rightarrow> nat \<Rightarrow> nat \<Rightarrow> bool \<Rightarrow> bool" where
  "anchors_ok ml sl i j g \<longleftrightarrow>
     length ml = length sl \<and>
     (\<forall>k<length ml. 1 \<le> ml ! k \<and> ml ! k \<le> int i) \<and>
     (\<forall>k. k + 1 < length ml \<longrightarrow>
          sl ! k < sl ! (k + 1) \<and> sl ! (k + 1) - sl ! k < ml ! (k + 1) - ml ! k) \<and>
     (if ml = [] then j = 0 \<and> g
      else sl ! 0 = 1 \<and> last sl \<le> int j \<and> last ml + (int j - last sl) \<le> int i \<and>
           (g \<longrightarrow> last ml + (int j - last sl) < int i))"

lemma anchors_ok_gap:
  assumes "anchors_ok ml sl i j g"
  shows "anchors_ok ml sl (i + 1) j True"
  using assms unfolding anchors_ok_def by (auto split: if_splits)

lemma anchors_ok_same_run:
  assumes "anchors_ok ml sl i j False"
  shows "anchors_ok ml sl (i + 1) (j + 1) False"
  using assms unfolding anchors_ok_def by (auto split: if_splits)

lemma anchors_ok_new_run:
  assumes "anchors_ok ml sl i j True"
  shows "anchors_ok (ml @ [int i + 1]) (sl @ [int j + 1]) (i + 1) (j + 1) False"
proof -
  from assms have len: "length ml = length sl"
    and rng: "\<forall>k<length ml. 1 \<le> ml ! k \<and> ml ! k \<le> int i"
    and stp: "\<forall>k. k + 1 < length ml \<longrightarrow>
          sl ! k < sl ! (k + 1) \<and> sl ! (k + 1) - sl ! k < ml ! (k + 1) - ml ! k"
    and lst: "if ml = [] then j = 0
      else sl ! 0 = 1 \<and> last sl \<le> int j \<and> last ml + (int j - last sl) < int i"
    unfolding anchors_ok_def by (auto split: if_splits)
  have sl_empty: "sl = [] \<longleftrightarrow> ml = []" using len by auto
  have a: "length (ml @ [int i + 1]) = length (sl @ [int j + 1])" using len by simp
  have b: "\<forall>k<length (ml @ [int i + 1]). 1 \<le> (ml @ [int i + 1]) ! k \<and>
             (ml @ [int i + 1]) ! k \<le> int (i + 1)"
    using rng by (auto simp: nth_append)
  have c: "\<forall>k. k + 1 < length (ml @ [int i + 1]) \<longrightarrow>
      (sl @ [int j + 1]) ! k < (sl @ [int j + 1]) ! (k + 1) \<and>
      (sl @ [int j + 1]) ! (k + 1) - (sl @ [int j + 1]) ! k <
        (ml @ [int i + 1]) ! (k + 1) - (ml @ [int i + 1]) ! k"
  proof (intro allI impI)
    fix k assume k: "k + 1 < length (ml @ [int i + 1])"
    then have kl: "k < length ml" "k < length sl" using len by simp_all
    show "(sl @ [int j + 1]) ! k < (sl @ [int j + 1]) ! (k + 1) \<and>
      (sl @ [int j + 1]) ! (k + 1) - (sl @ [int j + 1]) ! k <
        (ml @ [int i + 1]) ! (k + 1) - (ml @ [int i + 1]) ! k"
    proof (cases "k + 1 < length ml")
      case True
      then show ?thesis using stp len by (simp add: nth_append)
    next
      case False
      then have e: "k + 1 = length ml" "k + 1 = length sl" using kl len by simp_all
      then have ne: "ml \<noteq> []" "sl \<noteq> []" by auto
      have "last ml = ml ! (length ml - 1)" "last sl = sl ! (length sl - 1)"
        using ne by (simp_all add: last_conv_nth)
      then have "last ml = ml ! k" "last sl = sl ! k"
        using e [symmetric] by simp_all
      with ne have "sl ! k \<le> int j" "ml ! k + (int j - sl ! k) < int i"
        using lst by simp_all
      then show ?thesis using e kl by (simp add: nth_append)
    qed
  qed
  have d: "(sl @ [int j + 1]) ! 0 = 1"
    using lst sl_empty by (cases "ml = []") (auto simp: nth_append)
  show ?thesis
    unfolding anchors_ok_def using a b c d by simp
qed

lemma build_coord_map_loop_inv:
  "anchors_ok ml sl i j g \<Longrightarrow> i \<le> len \<Longrightarrow>
   build_coord_map_loop row len i j g ml sl = (j', ml', sl') \<Longrightarrow>
   \<exists>g'. anchors_ok ml' sl' len j' g'"
proof (induction "len - i" arbitrary: i j g ml sl)
  case 0
  then have "build_coord_map_loop row len i j g ml sl = (j, ml, sl)"
    by (subst build_coord_map_loop.simps) simp
  moreover have "i = len" using 0 by simp
  ultimately show ?case using 0 by auto
next
  case (Suc d)
  then have il: "i < len" by simp
  have d: "d = len - (i + 1)" using Suc.hyps(2) by simp
  show ?case
  proof (cases "row ! i = GAP_CHAR")
    case True
    then have "build_coord_map_loop row len (i + 1) j True ml sl = (j', ml', sl')"
      using Suc.prems(3) il by (subst (asm) build_coord_map_loop.simps) simp
    from Suc.hyps(1) [OF d anchors_ok_gap [OF Suc.prems(1)] _ this] il show ?thesis by simp
  next
    case False
    show ?thesis
    proof (cases g)
      case True
      then have "build_coord_map_loop row len (i + 1) (j + 1) False
                   (ml @ [int i + 1]) (sl @ [int j + 1]) = (j', ml', sl')"
        using Suc.prems(3) il False by (subst (asm) build_coord_map_loop.simps) simp
      from Suc.hyps(1) [OF d anchors_ok_new_run _ this] Suc.prems(1) True il
      show ?thesis by simp
    next
      case g: False
      then have "build_coord_map_loop row len (i + 1) (j + 1) False ml sl = (j', ml', sl')"
        using Suc.prems(3) il False by (subst (asm) build_coord_map_loop.simps) simp
      from Suc.hyps(1) [OF d anchors_ok_same_run _ this] Suc.prems(1) g il
      show ?thesis by simp
    qed
  qed
qed

lemma anchors_ok_sorted:
  assumes "anchors_ok ml sl i j g"
  shows "sorted_wrt (<) ml"
proof -
  have "\<forall>k. Suc k < length ml \<longrightarrow> ml ! k < ml ! Suc k"
    using assms unfolding anchors_ok_def by fastforce
  then show ?thesis
    by (simp add: sorted_wrt_iff_nth_Suc_transp)
qed

lemma int_wrap_id: "- 2147483648 \<le> v \<Longrightarrow> v \<le> INT_MAX \<Longrightarrow> int_wrap v = v"
  by (simp add: int_wrap_def INT_MAX_def)

text \<open>
  On a map that satisfies the invariant and whose lengths leave room for
  \<^verbatim>\<open>seq_len + 1\<close>, no computation of the two lookups wraps around, and they compose to
  the identity.
\<close>

lemma anchors_ok_round_trip:
  assumes ok: "anchors_ok ml sl len j g" and p: "1 \<le> p" "p \<le> int j"
    and bl: "int len \<le> INT_MAX" and bj: "int j < INT_MAX"
    and cm: "cm = \<lparr>msa_list = ml, seq_list = sl, msa_len = int len, seq_len = int j\<rparr>"
  shows "\<exists>a. msa_map_seq_to_msa cm p = Inr a \<and> msa_map_msa_to_seq cm a = Inr p"
proof -
  from ok have len: "length ml = length sl"
    and rng: "\<forall>k<length ml. 1 \<le> ml ! k \<and> ml ! k \<le> int len"
    and stp: "\<forall>k. k + 1 < length ml \<longrightarrow>
          sl ! k < sl ! (k + 1) \<and> sl ! (k + 1) - sl ! k < ml ! (k + 1) - ml ! k"
    and lst: "if ml = [] then j = 0 \<and> g
      else sl ! 0 = 1 \<and> last sl \<le> int j \<and> last ml + (int j - last sl) \<le> int len \<and>
           (g \<longrightarrow> last ml + (int j - last sl) < int len)"
    unfolding anchors_ok_def by simp_all
  have ne: "ml \<noteq> []" "sl \<noteq> []" using lst p len by (auto split: if_splits)
  have first: "hd sl \<le> p" using lst ne p by (simp add: hd_conv_nth)
  from lst_bsearch_int_governs [OF ne(2) first]
  obtain k where k: "k < length sl" "lst_bsearch_int sl p = int k" "sl ! k \<le> p"
    "k + 1 < length sl \<longrightarrow> p < sl ! (k + 1)" by blast
  define a where "a = ml ! k + (p - sl ! k)"
  have lo: "ml ! k \<le> a" using k(3) by (simp add: a_def)
  have hi: "k + 1 < length ml \<longrightarrow> a < ml ! (k + 1)"
    using k(4) stp len by (fastforce simp: a_def)
  have m1: "1 \<le> ml ! k" using rng k(1) len by simp
  have a1: "1 \<le> a" using lo m1 by simp
  have a2: "a \<le> int len"
  proof (cases "k + 1 < length ml")
    case True
    then have "ml ! (k + 1) \<le> int len" using rng by simp
    with hi True show ?thesis by simp
  next
    case False
    then have "k = length ml - 1" using k(1) len by simp
    then have "last ml = ml ! k" "last sl = sl ! k"
      using ne len by (simp_all add: last_conv_nth)
    then have "ml ! k + (int j - sl ! k) \<le> int len" using lst ne by simp
    with p show ?thesis by (simp add: a_def)
  qed
  have d: "0 \<le> p - sl ! k" "p - sl ! k \<le> INT_MAX"
    using k(3) a2 m1 bl by (simp_all add: a_def)
  have w1: "int_wrap (p - sl ! k) = p - sl ! k"
    using d by (intro int_wrap_id) simp_all
  have w2: "int_wrap a = a"
    using a1 a2 bl by (intro int_wrap_id) simp_all
  have to_msa: "msa_map_seq_to_msa cm p = Inr a"
    using p k len w1 w2 by (simp add: msa_map_seq_to_msa_def cm Let_def a_def)
  have idx: "lst_bsearch_int ml a = int k"
    using lst_bsearch_int_unique [OF anchors_ok_sorted [OF ok], of k a] k(1) len lo hi by simp
  have w3: "int_wrap (a - ml ! k) = p - sl ! k"
    using w1 by (simp add: a_def)
  have w4: "int_wrap p = p"
    using p bj by (intro int_wrap_id) simp_all
  have w5: "int_wrap (int j + 1) = int j + 1"
    using bj by (intro int_wrap_id) simp_all
  have nxt: "p < (if int k < int (length sl) - 1 then sl ! nat (int k + 1)
                  else int_wrap (int j + 1))"
  proof (cases "k + 1 < length sl")
    case True
    then have "int k < int (length sl) - 1" by simp
    moreover have "nat (int k + 1) = k + 1" by simp
    ultimately show ?thesis using k(4) True by simp
  next
    case False
    then have "\<not> int k < int (length sl) - 1" by simp
    then show ?thesis using p w5 by simp
  qed
  have "msa_map_msa_to_seq cm a = Inr p"
    using a1 a2 idx k(1) len nxt
    by (auto simp: msa_map_msa_to_seq_def cm Let_def w3 w4 split: if_splits)
  with to_msa show ?thesis by blast
qed

lemma build_coord_map_loop_count:
  "i \<le> len \<Longrightarrow> len \<le> length row \<Longrightarrow>
   fst (build_coord_map_loop row len i j g ml sl) =
     j + length (filter (\<lambda>c. c \<noteq> GAP_CHAR) (take (len - i) (drop i row)))"
proof (induction "len - i" arbitrary: i j g ml sl)
  case 0
  then show ?case by (subst build_coord_map_loop.simps) simp
next
  case (Suc d)
  then have il: "i < len" by simp
  have d: "d = len - (i + 1)" using Suc.hyps(2) by simp
  have "drop i row = row ! i # drop (i + 1) row"
    using il Suc.prems(2) by (simp add: Cons_nth_drop_Suc)
  moreover have "len - i = Suc (len - (i + 1))" using il by simp
  ultimately have split:
    "take (len - i) (drop i row) = row ! i # take (len - (i + 1)) (drop (i + 1) row)"
    by simp
  show ?case
    using Suc.hyps(1) [OF d _ Suc.prems(2)] il
    by (subst build_coord_map_loop.simps) (simp add: split Let_def)
qed

text \<open>
  The round trip on every alignment whose reference row has fewer than \<open>INT_MAX\<close>
  non-gap characters: \<^verbatim>\<open>msa_build_coord_map\<close> returns a map whose \<open>seq_len\<close> is the
  ungapped length of the row, and for every sequence position \<open>p\<close> with
  \<open>1 \<le> p \<le> seq_len\<close> the two directions compose to the identity, no assertion failing
  on the way.
\<close>

lemma msa_coord_map_round_trip_below_INT_MAX:
  assumes "explicit_matrix m rows" and "1 \<le> r" and "r \<le> int (nseqs m)"
    and "int (length_msa m) \<le> INT_MAX"
    and "int (length (filter (\<lambda>c. c \<noteq> GAP_CHAR)
                (take (length_msa m) (rows ! nat (r - 1))))) < INT_MAX"
  shows "\<exists>cm. msa_build_coord_map m r = Inr cm \<and>
           msa_len cm = int (length_msa m) \<and>
           seq_len cm = int (length (filter (\<lambda>c. c \<noteq> GAP_CHAR)
                               (take (length_msa m) (rows ! nat (r - 1))))) \<and>
           (\<forall>p. 1 \<le> p \<and> p \<le> seq_len cm \<longrightarrow>
                (\<exists>a. msa_map_seq_to_msa cm p = Inr a \<and> msa_map_msa_to_seq cm a = Inr p))"
proof (cases "length_msa m = 0")
  case True
  then show ?thesis
    using assms(1) by (auto simp: msa_build_coord_map_def explicit_matrix_def)
next
  case False
  define row where "row = rows ! nat (r - 1)"
  have s: "seqs m = Some rows" and lr: "length rows = nseqs m"
    and ll: "list_all (\<lambda>r. length_msa m < length r) rows"
    using assms(1) by (simp_all add: explicit_matrix_def)
  have "nat (r - 1) < length rows" using assms(2,3) lr by simp
  then have rl: "length_msa m \<le> length row"
    using ll by (simp add: list_all_length row_def less_imp_le)
  obtain j ml sl where run: "build_coord_map_loop row (length_msa m) 0 0 True [] [] = (j, ml, sl)"
    by (cases "build_coord_map_loop row (length_msa m) 0 0 True [] []") blast
  define cm where "cm = \<lparr>msa_list = ml, seq_list = sl, msa_len = int (length_msa m), seq_len = int j\<rparr>"
  have build: "msa_build_coord_map m r = Inr cm"
    using False s assms(2,3) lr run
    by (simp add: msa_build_coord_map_def row_def [symmetric] cm_def)
  have "anchors_ok [] [] 0 0 True" by (simp add: anchors_ok_def)
  from build_coord_map_loop_inv [OF this _ run]
  obtain g where ok: "anchors_ok ml sl (length_msa m) j g" by auto
  have cnt: "j = length (filter (\<lambda>c. c \<noteq> GAP_CHAR) (take (length_msa m) row))"
    using build_coord_map_loop_count [OF _ rl, of 0 0 True "[]" "[]"] run by simp
  have bj: "int j < INT_MAX" using assms(5) cnt by (simp add: row_def)
  have "\<forall>p. 1 \<le> p \<and> p \<le> seq_len cm \<longrightarrow>
          (\<exists>a. msa_map_seq_to_msa cm p = Inr a \<and> msa_map_msa_to_seq cm a = Inr p)"
    using anchors_ok_round_trip [OF ok _ _ assms(4) bj cm_def] by (simp add: cm_def)
  with build cnt show ?thesis by (auto simp: cm_def row_def)
qed

text \<open>
  A row without gaps has a single anchor, the pair (1, 1), and its ungapped length is
  the length of the alignment.
\<close>

lemma build_coord_map_loop_gap_free:
  assumes "\<forall>k<len. row ! k \<noteq> GAP_CHAR" and "i \<le> len"
  shows "build_coord_map_loop row len i j False ml sl = (j + (len - i), ml, sl)"
  using assms(2)
proof (induction "len - i" arbitrary: i j)
  case 0
  then show ?case by (subst build_coord_map_loop.simps) simp
next
  case (Suc d)
  then have il: "i < len" by simp
  have d: "d = len - (i + 1)" using Suc.hyps(2) by simp
  have "build_coord_map_loop row len i j False ml sl =
        build_coord_map_loop row len (i + 1) (j + 1) False ml sl"
    using il assms(1) by (subst build_coord_map_loop.simps) simp
  also have "\<dots> = (j + 1 + (len - (i + 1)), ml, sl)"
    using Suc.hyps(1) [OF d] il by simp
  finally show ?case using il by simp
qed

definition gap_free_msa :: "nat \<Rightarrow> MSA" where
  "gap_free_msa n =
     \<lparr>seqs = Some [replicate n (CHR ''A'') @ [NUL]], names = [''ref''],
      nseqs = 1, length_msa = n, alphabet = DEFAULT_ALPHABET, missing = DEFAULT_MDATA_CHARS,
      categories = None, ncats = - 1, alloc_len = n, idx_offset = 0, ss = None\<rparr>"

lemma msa_build_coord_map_gap_free:
  assumes "0 < n"
  shows "msa_build_coord_map (gap_free_msa n) 1 =
           Inr \<lparr>msa_list = [1], seq_list = [1], msa_len = int n, seq_len = int n\<rparr>"
proof -
  define row where "row = replicate n (CHR ''A'') @ [NUL]"
  have free: "\<forall>k<n. row ! k \<noteq> GAP_CHAR"
    by (simp add: row_def nth_append GAP_CHAR_def)
  have "build_coord_map_loop row n 0 0 True [] [] =
        build_coord_map_loop row n 1 1 False [1] [1]"
    using assms free by (subst build_coord_map_loop.simps) simp
  also have "\<dots> = (1 + (n - 1), [1], [1])"
    using assms by (intro build_coord_map_loop_gap_free [OF free]) simp
  finally have "build_coord_map_loop row n 0 0 True [] [] = (n, [1], [1])"
    using assms by simp
  then show ?thesis
    using assms by (simp add: msa_build_coord_map_def gap_free_msa_def row_def)
qed

text \<open>
  C1 fails on a reference row of \<open>INT_MAX\<close> columns without a gap (the alignment has an
  explicit matrix of one row, its ungapped length is positive). The map built from it
  has the single anchor (1, 1) and \<open>seq_len = INT_MAX\<close>. Sequence position 5 is mapped to
  alignment position 5, but on the way back \<^verbatim>\<open>map->seq_len + 1\<close> overflows: the bound
  of the last run becomes the least \<^verbatim>\<open>int\<close>, every position counts as lying in a gap
  after it, and \<^verbatim>\<open>msa_map_msa_to_seq\<close> returns 2147483647 instead of 5.
\<close>

theorem msa_coord_map_round_trip_overflow:
  "explicit_matrix (gap_free_msa 2147483647) [replicate 2147483647 (CHR ''A'') @ [NUL]] \<and>
   msa_build_coord_map (gap_free_msa 2147483647) 1 =
     Inr \<lparr>msa_list = [1], seq_list = [1], msa_len = 2147483647, seq_len = 2147483647\<rparr> \<and>
   msa_map_seq_to_msa
     \<lparr>msa_list = [1], seq_list = [1], msa_len = 2147483647, seq_len = 2147483647\<rparr> 5 = Inr 5 \<and>
   msa_map_msa_to_seq
     \<lparr>msa_list = [1], seq_list = [1], msa_len = 2147483647, seq_len = 2147483647\<rparr> 5 =
     Inr 2147483647"
proof -
  have "explicit_matrix (gap_free_msa 2147483647) [replicate 2147483647 (CHR ''A'') @ [NUL]]"
    by (simp add: explicit_matrix_def gap_free_msa_def)
  moreover have "msa_build_coord_map (gap_free_msa 2147483647) 1 =
     Inr \<lparr>msa_list = [1], seq_list = [1], msa_len = 2147483647, seq_len = 2147483647\<rparr>"
    using msa_build_coord_map_gap_free [of 2147483647] by simp
  moreover have "msa_map_seq_to_msa
     \<lparr>msa_list = [1], seq_list = [1], msa_len = 2147483647, seq_len = 2147483647\<rparr> 5 = Inr 5"
    by (simp add: msa_map_seq_to_msa_def int_wrap_def)
  moreover have "msa_map_msa_to_seq
     \<lparr>msa_list = [1], seq_list = [1], msa_len = 2147483647, seq_len = 2147483647\<rparr> 5 =
     Inr 2147483647"
    by (simp add: msa_map_msa_to_seq_def int_wrap_def)
  ultimately show ?thesis by simp
qed

text \<open>The map of the first row of the example, \<^verbatim>\<open>AC-GT\<close>, and two lookups in it.\<close>

lemma msa_build_coord_map_example:
  "msa_build_coord_map example_msa 1 =
     Inr \<lparr>msa_list = [1, 4], seq_list = [1, 3], msa_len = 5, seq_len = 4\<rparr>"
  by (simp add: msa_build_coord_map_def example_msa_def build_coord_map_loop.simps
      GAP_CHAR_def NUL_def)

lemma msa_map_example:
  "msa_map_seq_to_msa \<lparr>msa_list = [1, 4], seq_list = [1, 3], msa_len = 5, seq_len = 4\<rparr> 3 = Inr 4"
  "msa_map_msa_to_seq \<lparr>msa_list = [1, 4], seq_list = [1, 3], msa_len = 5, seq_len = 4\<rparr> 3 = Inr 2"
  by (simp_all add: msa_map_seq_to_msa_def msa_map_msa_to_seq_def int_wrap_def)

section \<open>Category labelling\<close>

text \<open>
  What \<^verbatim>\<open>msa_label_categories\<close> reads of a feature (\<^verbatim>\<open>GFF_Feature\<close> of gff.h): its type
  name, its first and last column (counted from 1, both included), strand and frame.
\<close>

record GFF_Feature =
  feature :: string
  feat_start :: int
  feat_end :: int
  strand :: char
  frame :: int

text \<open>
  What it reads of a category map (\<^verbatim>\<open>CategoryMap\<close> of category_map.h): the number of
  categories, for every category the range it belongs to (a range of more than one
  category is cyclic) and its labelling precedence (-1 for none, otherwise lower wins).
\<close>

record CategoryRange =
  start_cat_no :: int
  end_cat_no :: int

record CategoryMap =
  cm_ncats :: int
  ranges :: "CategoryRange list"
  labelling_precedence :: "int list"
  feature_types :: "(string \<times> int) list"

text \<open>
  Modelled from the spec: \<^verbatim>\<open>cm_get_category\<close> of category_map.c (not among the sources),
  which "converts feature-type names to integer category ids". An unknown type gives
  category 0, the background; msa.c tells the two apart by the name.
\<close>

definition cm_get_category :: "CategoryMap \<Rightarrow> string \<Rightarrow> int" where
  "cm_get_category cm name = (case map_of (feature_types cm) name of None \<Rightarrow> 0 | Some cat \<Rightarrow> cat)"

text \<open>
  Modelled from the spec: the macro \<^verbatim>\<open>BACKGD_CAT_NAME\<close> of category_map.h, the name of
  "the designated background type".
\<close>

definition BACKGD_CAT_NAME :: string where
  "BACKGD_CAT_NAME = ''background''"

text \<open>An array read at a C \<^verbatim>\<open>int\<close> index; nothing in msa.c checks the index.\<close>

definition array_get :: "'a list \<Rightarrow> int \<Rightarrow> error + 'a" where
  "array_get xs i = (if 0 \<le> i \<and> i < int (length xs) then Inr (xs ! nat i) else Inl Out_of_bounds)"

text \<open>The remainder of C99, which truncates towards zero; by 0 it traps.\<close>

definition c_rem :: "int \<Rightarrow> int \<Rightarrow> error + int" where
  "c_rem a b = (if b = 0 then Inl Division_by_zero else Inr (sgn a * (\<bar>a\<bar> mod \<bar>b\<bar>)))"

text \<open>
  The labelling rule shared by both branches: the column takes the new category when
  its present label has no precedence, or the new category has one that is lower.
\<close>

definition takes_label :: "int \<Rightarrow> int \<Rightarrow> bool" where
  "takes_label oldprec newprec \<longleftrightarrow> oldprec = - 1 \<or> (newprec \<noteq> - 1 \<and> newprec < oldprec)"

text \<open>
  The loop over the columns of a feature of a non-cyclic category,
  \<^verbatim>\<open>for (j = feat->start; j <= feat->end; j++)\<close>.
\<close>

function label_loop :: "CategoryMap \<Rightarrow> int \<Rightarrow> int \<Rightarrow> int \<Rightarrow> int list \<Rightarrow> error + int list" where
  "label_loop cm cat j e cats =
     (if j \<le> e then
        (case array_get cats (j - 1) of
           Inl err \<Rightarrow> Inl err
         | Inr old \<Rightarrow>
             (case array_get (labelling_precedence cm) old of
                Inl err \<Rightarrow> Inl err
              | Inr oldprec \<Rightarrow>
                  (case array_get (labelling_precedence cm) cat of
                     Inl err \<Rightarrow> Inl err
                   | Inr newprec \<Rightarrow>
                       label_loop cm cat (j + 1) e
                         (if takes_label oldprec newprec then cats[nat (j - 1) := cat]
                          else cats))))
      else Inr cats)"
  by pat_completeness auto
termination
  by (relation "measure (\<lambda>(cm, cat, j, e, cats). nat (e + 1 - j))") auto

declare label_loop.simps [simp del]

text \<open>
  The loop over the columns of a feature of a cyclic range: the category within the
  range follows from the offset to the feature's start (to its end on the reverse
  strand) and the frame.
\<close>

function cyclic_loop ::
  "CategoryMap \<Rightarrow> GFF_Feature \<Rightarrow> int \<Rightarrow> int \<Rightarrow> int \<Rightarrow> int \<Rightarrow> int list \<Rightarrow> error + int list" where
  "cyclic_loop cm feat start_cat range_size frm j cats =
     (if j \<le> feat_end feat then
        (let offset = (if strand feat = CHR ''-'' then feat_end feat - j else j - feat_start feat) in
         case c_rem (offset + frm) range_size of
           Inl err \<Rightarrow> Inl err
         | Inr r \<Rightarrow>
             (let thiscat = start_cat + r in
              case array_get cats (j - 1) of
                Inl err \<Rightarrow> Inl err
              | Inr old \<Rightarrow>
                  (case array_get (labelling_precedence cm) old of
                     Inl err \<Rightarrow> Inl err
                   | Inr oldprec \<Rightarrow>
                       (case array_get (labelling_precedence cm) thiscat of
                          Inl err \<Rightarrow> Inl err
                        | Inr thisprec \<Rightarrow>
                            cyclic_loop cm feat start_cat range_size frm (j + 1)
                              (if takes_label oldprec thisprec then cats[nat (j - 1) := thiscat]
                               else cats)))))
      else Inr cats)"
  by pat_completeness auto
termination
  by (relation "measure (\<lambda>(cm, feat, start_cat, range_size, frm, j, cats). nat (feat_end feat + 1 - j))")
    auto

declare cyclic_loop.simps [simp del]

text \<open>
  The body of the loop over the features. A feature of an unrecognized type is passed
  over; so is one with a start or end of -1 or with \<^verbatim>\<open>feat->end >= msa->length\<close>, after
  a warning on stderr (not modelled).
\<close>

definition label_feature :: "CategoryMap \<Rightarrow> nat \<Rightarrow> GFF_Feature \<Rightarrow> int list \<Rightarrow> error + int list" where
  "label_feature cm len feat cats =
     (let cat = cm_get_category cm (feature feat) in
        if cat = 0 \<and> feature feat \<noteq> BACKGD_CAT_NAME then Inr cats
        else if feat_start feat = - 1 \<or> feat_end feat = - 1 \<or> feat_end feat \<ge> int len then Inr cats
        else (case array_get (ranges cm) cat of
                Inl err \<Rightarrow> Inl err
              | Inr rng \<Rightarrow>
                  if start_cat_no rng = end_cat_no rng then
                    label_loop cm cat (feat_start feat) (feat_end feat) cats
                  else
                    (let range_size = end_cat_no rng - start_cat_no rng + 1;
                         frm = (if frame feat < 0 \<or> frame feat > 2 then 0 else frame feat)
                     in cyclic_loop cm feat (start_cat_no rng) range_size frm
                          (feat_start feat) cats)))"

fun label_features :: "CategoryMap \<Rightarrow> nat \<Rightarrow> GFF_Feature list \<Rightarrow> int list \<Rightarrow> error + int list" where
  "label_features cm len [] cats = Inr cats"
| "label_features cm len (feat # feats) cats =
     (case label_feature cm len feat cats of
        Inl err \<Rightarrow> Inl err
      | Inr cats' \<Rightarrow> label_features cm len feats cats')"

text \<open>
  \<^verbatim>\<open>msa_label_categories\<close>. A missing category array is allocated; the first
  \<open>length_msa\<close> entries are set to 0 before the features are gone through. With a
  compressed view the labels are then passed on by \<^verbatim>\<open>ss_update_categories\<close>.
\<close>

definition msa_label_categories :: "MSA \<Rightarrow> GFF_Feature list \<Rightarrow> CategoryMap \<Rightarrow> error + MSA" where
  "msa_label_categories m gff cm =
     (case (case categories m of
              None \<Rightarrow> Inr (replicate (length_msa m) 0)
            | Some old \<Rightarrow>
                if length old < length_msa m then Inl Out_of_bounds
                else Inr (replicate (length_msa m) 0 @ drop (length_msa m) old)) of
        Inl err \<Rightarrow> Inl err
      | Inr cats0 \<Rightarrow>
          (case label_features cm (length_msa m) gff cats0 of
             Inl err \<Rightarrow> Inl err
           | Inr cats \<Rightarrow>
               if ss m \<noteq> None then Inl Suff_stats_codec
               else Inr (m\<lparr>categories := Some cats, ncats := cm_ncats cm\<rparr>)))"


section \<open>Properties of category labelling\<close>




text \<open>
  C6, as the claim states it, fails: every column starts with the label 0, and the rule
  compares a feature's precedence with that of the present label. In this category map
  the background category 0 has precedence 0 itself, so the two overlapping features
  (categories 1 and 2, precedences 1 and 2) leave column 1 labelled 0, not 1.
\<close>

definition example_cm :: CategoryMap where
  "example_cm =
     \<lparr>cm_ncats = 2,
      ranges = [\<lparr>start_cat_no = 0, end_cat_no = 0\<rparr>, \<lparr>start_cat_no = 1, end_cat_no = 1\<rparr>,
                \<lparr>start_cat_no = 2, end_cat_no = 2\<rparr>],
      labelling_precedence = [0, 1, 2],
      feature_types = [(''background'', 0), (''exon'', 1), (''intron'', 2)]\<rparr>"

definition example_exon :: GFF_Feature where
  "example_exon = \<lparr>feature = ''exon'', feat_start = 1, feat_end = 3, strand = CHR ''+'', frame = 0\<rparr>"

definition example_intron :: GFF_Feature where
  "example_intron = \<lparr>feature = ''intron'', feat_start = 1, feat_end = 4, strand = CHR ''+'', frame = 0\<rparr>"






text \<open>
  The labels of the example in both orders: the exon (precedence 1) wins on its columns
  1 to 3, the intron keeps column 4, and column 5 stays background.
\<close>

lemma msa_label_categories_example:
  "map_sum id categories (msa_label_categories example_msa [example_exon, example_intron]
      (example_cm\<lparr>labelling_precedence := [- 1, 1, 2]\<rparr>)) = Inr (Some [1, 1, 1, 2, 0])"
  "map_sum id categories (msa_label_categories example_msa [example_intron, example_exon]
      (example_cm\<lparr>labelling_precedence := [- 1, 1, 2]\<rparr>)) = Inr (Some [1, 1, 1, 2, 0])"
  by (simp_all add: msa_label_categories_def example_msa_def example_cm_def example_exon_def
      example_intron_def label_feature_def cm_get_category_def BACKGD_CAT_NAME_def Let_def
      array_get_def label_loop.simps takes_label_def eval_nat_numeral)

text \<open>
  A feature that ends on the last column is passed over: the test is
  \<^verbatim>\<open>feat->end >= msa->length\<close> although columns count from 1.
\<close>

lemma msa_label_categories_last_column:
  "map_sum id categories (msa_label_categories example_msa [example_exon\<lparr>feat_end := 5\<rparr>]
      (example_cm\<lparr>labelling_precedence := [- 1, 1, 2]\<rparr>)) = Inr (Some [0, 0, 0, 0, 0])"
  by (simp add: msa_label_categories_def example_msa_def example_cm_def example_exon_def
      label_feature_def cm_get_category_def BACKGD_CAT_NAME_def Let_def eval_nat_numeral)

section \<open>Reading sequence characters from a file\<close>

text \<open>
  The classification functions of \<^verbatim>\<open><ctype.h>\<close> in the C locale, on 7-bit characters.
\<close>

definition ascii :: "char \<Rightarrow> bool" where
  "ascii c \<longleftrightarrow> (of_char c :: nat) < 128"

definition isspace :: "char \<Rightarrow> bool" where
  "isspace c \<longleftrightarrow> (of_char c :: nat) = 32 \<or> (9 \<le> (of_char c :: nat) \<and> (of_char c :: nat) \<le> 13)"

definition islower :: "char \<Rightarrow> bool" where
  "islower c \<longleftrightarrow> 97 \<le> (of_char c :: nat) \<and> (of_char c :: nat) \<le> 122"

definition isupper :: "char \<Rightarrow> bool" where
  "isupper c \<longleftrightarrow> 65 \<le> (of_char c :: nat) \<and> (of_char c :: nat) \<le> 90"

definition isalpha :: "char \<Rightarrow> bool" where
  "isalpha c \<longleftrightarrow> isupper c \<or> islower c"

definition toupper :: "char \<Rightarrow> char" where
  "toupper c = (if islower c then char_of ((of_char c :: nat) - 32) else c)"

text \<open>
  \<^verbatim>\<open>msa_new\<close>: the alphabet is copied (the default one when none is given), the
  missing-data characters are the default ones, and there are no categories and no
  compressed view. A null \<^verbatim>\<open>names\<close> table is the empty list.
\<close>

definition msa_new :: "string list option \<Rightarrow> string list \<Rightarrow> nat \<Rightarrow> nat \<Rightarrow> string option \<Rightarrow> MSA" where
  "msa_new seqs0 names0 nseqs0 length0 alphabet0 =
     \<lparr>seqs = seqs0, names = names0, nseqs = nseqs0, length_msa = length0,
      alphabet = (case alphabet0 of None \<Rightarrow> DEFAULT_ALPHABET | Some a \<Rightarrow> a),
      missing = DEFAULT_MDATA_CHARS, categories = None, ncats = - 1,
      alloc_len = length0, idx_offset = 0, ss = None\<rparr>"

text \<open>
  The two lookup tables \<^verbatim>\<open>msa_new\<close> fills. \<^verbatim>\<open>inv_alphabet\<close> starts at -1 everywhere and
  gets \<open>i\<close> at the \<open>i\<close>-th character of the alphabet (a later occurrence overwrites an
  earlier one); \<^verbatim>\<open>is_missing\<close> starts at 0 and gets 1 at every missing-data character.
\<close>

fun inv_alphabet_loop :: "string \<Rightarrow> int \<Rightarrow> (char \<Rightarrow> int) \<Rightarrow> char \<Rightarrow> int" where
  "inv_alphabet_loop [] i tab = tab"
| "inv_alphabet_loop (c # cs) i tab = inv_alphabet_loop cs (i + 1) (tab(c := i))"

definition inv_alphabet :: "MSA \<Rightarrow> char \<Rightarrow> int" where
  "inv_alphabet msa = inv_alphabet_loop (alphabet msa) 0 (\<lambda>c. - 1)"

fun is_missing_loop :: "string \<Rightarrow> (char \<Rightarrow> int) \<Rightarrow> char \<Rightarrow> int" where
  "is_missing_loop [] tab = tab"
| "is_missing_loop (c # cs) tab = is_missing_loop cs (tab(c := 1))"

definition is_missing :: "MSA \<Rightarrow> char \<Rightarrow> int" where
  "is_missing msa = is_missing_loop (missing msa) (\<lambda>c. 0)"

text \<open>
  \<^verbatim>\<open>msa_alph_has_lowercase\<close>, whose test \<^verbatim>\<open>c >= 'a' && c <= 'z'\<close> is \<open>islower\<close>; the
  readers upcase the input unless it holds.
\<close>

fun msa_alph_has_lowercase_loop :: "string \<Rightarrow> bool" where
  "msa_alph_has_lowercase_loop [] = False"
| "msa_alph_has_lowercase_loop (c # cs) =
     (if islower c then True else msa_alph_has_lowercase_loop cs)"

definition msa_alph_has_lowercase :: "MSA \<Rightarrow> bool" where
  "msa_alph_has_lowercase msa = msa_alph_has_lowercase_loop (alphabet msa)"

text \<open>
  \<^verbatim>\<open>die("ERROR: bad character in multiple sequence alignment: '%c'.\n", base)\<close>.
\<close>

definition bad_character :: "char \<Rightarrow> error" where
  "bad_character base =
     Fatal (''ERROR: bad character in multiple sequence alignment: '' @
            [CHR 0x27, base, CHR 0x27] @ ''.'' @ [CHR 0x0A])"

text \<open>
  The treatment of one character of sequence text in the PHYLIP and MPM branch of
  \<^verbatim>\<open>msa_new_from_file\<close> (the body of \<^verbatim>\<open>for (k = 0; line[k] != '\0'; k++)\<close>). The result
  \<open>None\<close> is a white-space character, passed over by \<^verbatim>\<open>continue\<close>. The tables are
  indexed by \<^verbatim>\<open>(int)base\<close>; with a signed \<^verbatim>\<open>char\<close> a byte above 127 is an index outside
  them.
\<close>

definition phylip_base :: "MSA \<Rightarrow> bool \<Rightarrow> char \<Rightarrow> error + char option" where
  "phylip_base msa do_toupper c =
     (if \<not> ascii c then Inl Out_of_bounds
      else if isspace c then Inr None
      else
        let base = (if do_toupper then toupper c else c) in
          if base = CHR ''.'' \<and> inv_alphabet msa (CHR ''.'') = - 1 then Inr (Some (missing0 msa))
          else if base \<noteq> GAP_CHAR \<and> is_missing msa base = 0 \<and> inv_alphabet msa base = - 1 then
            (if isalpha base then Inr (Some (CHR ''N'')) else Inl (bad_character base))
          else Inr (Some base))"

text \<open>
  One line of sequence text in that branch: the characters kept are appended to the row
  read so far (\<^verbatim>\<open>msa->seqs[i][j++] = base\<close>).
\<close>

fun phylip_scan_line :: "MSA \<Rightarrow> bool \<Rightarrow> string \<Rightarrow> string \<Rightarrow> error + string" where
  "phylip_scan_line msa do_toupper [] seq = Inr seq"
| "phylip_scan_line msa do_toupper (c # line) seq =
     (case phylip_base msa do_toupper c of
        Inl err \<Rightarrow> Inl err
      | Inr None \<Rightarrow> phylip_scan_line msa do_toupper line seq
      | Inr (Some base) \<Rightarrow> phylip_scan_line msa do_toupper line (seq @ [base]))"

text \<open>
  The treatment of one character in \<^verbatim>\<open>msa_read_fasta\<close> ("scan chars and adjust if
  necessary"): two independent tests, and no call of \<^verbatim>\<open>die\<close>.
\<close>

definition fasta_base :: "MSA \<Rightarrow> bool \<Rightarrow> char \<Rightarrow> error + char" where
  "fasta_base msa do_toupper c =
     (if \<not> ascii c then Inl Out_of_bounds
      else
        let c1 = (if do_toupper then toupper c else c);
            c2 = (if c1 = CHR ''.'' \<and> inv_alphabet msa (CHR ''.'') = - 1 then missing0 msa else c1)
        in Inr (if isalpha c2 \<and> inv_alphabet msa c2 = - 1 then CHR ''N'' else c2))"

fun fasta_scan_row :: "MSA \<Rightarrow> bool \<Rightarrow> string \<Rightarrow> error + string" where
  "fasta_scan_row msa do_toupper [] = Inr []"
| "fasta_scan_row msa do_toupper (c # s) =
     (case fasta_base msa do_toupper c of
        Inl err \<Rightarrow> Inl err
      | Inr c' \<Rightarrow>
          (case fasta_scan_row msa do_toupper s of
             Inl err \<Rightarrow> Inl err
           | Inr s' \<Rightarrow> Inr (c' # s')))"

text \<open>
  The claim's notion of an unrecognized character: "not a gap, not a missing-data
  symbol, and not in the alphabet".
\<close>

definition unrecognized :: "MSA \<Rightarrow> char \<Rightarrow> bool" where
  "unrecognized msa b \<longleftrightarrow> b \<noteq> GAP_CHAR \<and> b \<notin> set (missing msa) \<and> b \<notin> set (alphabet msa)"

section \<open>Properties of the character treatment\<close>

lemma inv_alphabet_loop_absent:
  "0 \<le> i \<Longrightarrow> inv_alphabet_loop cs i tab c = - 1 \<longleftrightarrow> c \<notin> set cs \<and> tab c = - 1"
  by (induction cs arbitrary: i tab) auto

lemma inv_alphabet_absent: "inv_alphabet msa c = - 1 \<longleftrightarrow> c \<notin> set (alphabet msa)"
  by (simp add: inv_alphabet_def inv_alphabet_loop_absent)

lemma is_missing_loop_absent:
  "is_missing_loop cs tab c = 0 \<longleftrightarrow> c \<notin> set cs \<and> tab c = 0"
  by (induction cs arbitrary: tab) auto

lemma is_missing_absent: "is_missing msa c = 0 \<longleftrightarrow> c \<notin> set (missing msa)"
  by (simp add: is_missing_def is_missing_loop_absent)

lemma not_alpha_symbols:
  "\<not> isalpha GAP_CHAR" "\<not> isalpha (CHR ''*'')" "\<not> isalpha (CHR ''.'')"
  by (simp_all add: isalpha_def isupper_def islower_def GAP_CHAR_def)

lemma missing0_default: "missing msa = DEFAULT_MDATA_CHARS \<Longrightarrow> missing0 msa = CHR ''*''"
  by (simp add: missing0_def DEFAULT_MDATA_CHARS_def)

text \<open>
  The character treatment of the PHYLIP and MPM branch in the claim's terms; \<open>b\<close> is
  the character after the optional upcasing.
\<close>

lemma phylip_base_cases:
  assumes "missing msa = DEFAULT_MDATA_CHARS" and "ascii c" and "\<not> isspace c"
    and "b = (if do_toupper then toupper c else c)"
  shows "phylip_base msa do_toupper c =
     (if b = CHR ''.'' \<and> CHR ''.'' \<notin> set (alphabet msa) then Inr (Some (CHR ''*''))
      else if unrecognized msa b then
        (if isalpha b then Inr (Some (CHR ''N'')) else Inl (bad_character b))
      else Inr (Some b))"
  using assms
  by (simp add: phylip_base_def Let_def inv_alphabet_absent is_missing_absent unrecognized_def
      missing0_default)

lemma phylip_scan_line_accepts:
  assumes "missing msa = DEFAULT_MDATA_CHARS" and "list_all ascii line"
    and "\<forall>c\<in>set line. \<not> isspace c \<longrightarrow>
           (let b = (if do_toupper then toupper c else c)
            in b = CHR ''.'' \<or> \<not> unrecognized msa b \<or> isalpha b)"
  shows "phylip_scan_line msa do_toupper line seq =
     Inr (seq @ map (\<lambda>c. let b = (if do_toupper then toupper c else c)
                          in if b = CHR ''.'' \<and> CHR ''.'' \<notin> set (alphabet msa) then CHR ''*''
                             else if unrecognized msa b then CHR ''N'' else b)
                  (filter (\<lambda>c. \<not> isspace c) line))"
  using assms(2,3)
proof (induction line arbitrary: seq)
  case Nil
  then show ?case by simp
next
  case (Cons c line)
  then have a: "ascii c" and rest: "list_all ascii line"
    "\<forall>c\<in>set line. \<not> isspace c \<longrightarrow>
           (let b = (if do_toupper then toupper c else c)
            in b = CHR ''.'' \<or> \<not> unrecognized msa b \<or> isalpha b)"
    by simp_all
  show ?case
  proof (cases "isspace c")
    case True
    then show ?thesis using a Cons.IH [OF rest] by (simp add: phylip_base_def)
  next
    case False
    define b where "b = (if do_toupper then toupper c else c)"
    have ok: "b = CHR ''.'' \<or> \<not> unrecognized msa b \<or> isalpha b"
      using Cons.prems(2) False by (simp add: b_def Let_def)
    have dot: "b = CHR ''.'' \<Longrightarrow> CHR ''.'' \<in> set (alphabet msa) \<Longrightarrow> \<not> unrecognized msa b"
      by (simp add: unrecognized_def)
    have "phylip_base msa do_toupper c =
        Inr (Some (if b = CHR ''.'' \<and> CHR ''.'' \<notin> set (alphabet msa) then CHR ''*''
                   else if unrecognized msa b then CHR ''N'' else b))"
      using phylip_base_cases [OF assms(1) a False b_def] ok dot by auto
    then show ?thesis
      using False Cons.IH [OF rest] by (simp add: b_def Let_def)
  qed
qed

lemma phylip_scan_line_rejects:
  assumes "missing msa = DEFAULT_MDATA_CHARS" and "list_all ascii line"
    and "\<exists>c\<in>set line. \<not> isspace c \<and>
           (let b = (if do_toupper then toupper c else c)
            in b \<noteq> CHR ''.'' \<and> unrecognized msa b \<and> \<not> isalpha b)"
  shows "\<exists>b. b \<noteq> CHR ''.'' \<and> unrecognized msa b \<and> \<not> isalpha b \<and>
             phylip_scan_line msa do_toupper line seq = Inl (bad_character b)"
  using assms(2,3)
proof (induction line arbitrary: seq)
  case Nil
  then show ?case by simp
next
  case (Cons c line)
  then have a: "ascii c" and rest: "list_all ascii line" by simp_all
  define b where "b = (if do_toupper then toupper c else c)"
  show ?case
  proof (cases "\<not> isspace c \<and> b \<noteq> CHR ''.'' \<and> unrecognized msa b \<and> \<not> isalpha b")
    case True
    then have "phylip_base msa do_toupper c = Inl (bad_character b)"
      using phylip_base_cases [OF assms(1) a _ b_def] by simp
    with True show ?thesis by auto
  next
    case False
    then have later: "\<exists>c\<in>set line. \<not> isspace c \<and>
           (let b = (if do_toupper then toupper c else c)
            in b \<noteq> CHR ''.'' \<and> unrecognized msa b \<and> \<not> isalpha b)"
      using Cons.prems(2) by (auto simp: b_def Let_def)
    show ?thesis
    proof (cases "isspace c")
      case True
      then show ?thesis using a Cons.IH [OF rest later] by (simp add: phylip_base_def)
    next
      case sp: False
      from False sp have "\<exists>x. phylip_base msa do_toupper c = Inr (Some x)"
        using phylip_base_cases [OF assms(1) a sp b_def] by (auto simp: unrecognized_def)
      then obtain x where "phylip_base msa do_toupper c = Inr (Some x)" by blast
      then show ?thesis using Cons.IH [OF rest later] by simp
    qed
  qed
qed

lemma fasta_base_cases:
  assumes "missing msa = DEFAULT_MDATA_CHARS" and "ascii c"
    and "b = (if do_toupper then toupper c else c)"
  shows "\<exists>c'. fasta_base msa do_toupper c = Inr c' \<and>
           (b = CHR ''.'' \<and> CHR ''.'' \<notin> set (alphabet msa) \<longrightarrow> c' = CHR ''*'') \<and>
           (isalpha b \<and> b \<notin> set (alphabet msa) \<longrightarrow> c' = CHR ''N'') \<and>
           (b \<in> set (alphabet msa) \<or> b = GAP_CHAR \<longrightarrow> c' = b)"
proof -
  have "GAP_CHAR \<noteq> CHR ''.''" by (simp add: GAP_CHAR_def)
  then show ?thesis
    using assms not_alpha_symbols
    by (auto simp: fasta_base_def Let_def inv_alphabet_absent missing0_default)
qed

lemma fasta_scan_row_chars:
  assumes "missing msa = DEFAULT_MDATA_CHARS" and "list_all ascii line"
  shows "\<exists>out. fasta_scan_row msa do_toupper line = Inr out \<and> length out = length line \<and>
           (\<forall>j<length line.
              (let b = (if do_toupper then toupper (line ! j) else line ! j)
               in (b = CHR ''.'' \<and> CHR ''.'' \<notin> set (alphabet msa) \<longrightarrow> out ! j = CHR ''*'') \<and>
                  (isalpha b \<and> b \<notin> set (alphabet msa) \<longrightarrow> out ! j = CHR ''N'') \<and>
                  (b \<in> set (alphabet msa) \<or> b = GAP_CHAR \<longrightarrow> out ! j = b)))"
  using assms(2)
proof (induction line)
  case Nil
  then show ?case by simp
next
  case (Cons c line)
  then have a: "ascii c" and rest: "list_all ascii line" by simp_all
  from fasta_base_cases [OF assms(1) a refl, of do_toupper]
  obtain c' where c': "fasta_base msa do_toupper c = Inr c'"
    "(if do_toupper then toupper c else c) = CHR ''.'' \<and> CHR ''.'' \<notin> set (alphabet msa) \<longrightarrow> c' = CHR ''*''"
    "isalpha (if do_toupper then toupper c else c) \<and>
       (if do_toupper then toupper c else c) \<notin> set (alphabet msa) \<longrightarrow> c' = CHR ''N''"
    "(if do_toupper then toupper c else c) \<in> set (alphabet msa) \<or>
       (if do_toupper then toupper c else c) = GAP_CHAR \<longrightarrow> c' = (if do_toupper then toupper c else c)"
    by blast
  from Cons.IH [OF rest] obtain out where out: "fasta_scan_row msa do_toupper line = Inr out"
    "length out = length line"
    "\<forall>j<length line.
              (let b = (if do_toupper then toupper (line ! j) else line ! j)
               in (b = CHR ''.'' \<and> CHR ''.'' \<notin> set (alphabet msa) \<longrightarrow> out ! j = CHR ''*'') \<and>
                  (isalpha b \<and> b \<notin> set (alphabet msa) \<longrightarrow> out ! j = CHR ''N'') \<and>
                  (b \<in> set (alphabet msa) \<or> b = GAP_CHAR \<longrightarrow> out ! j = b))"
    by blast
  have "\<forall>j<length (c # line).
              (let b = (if do_toupper then toupper ((c # line) ! j) else (c # line) ! j)
               in (b = CHR ''.'' \<and> CHR ''.'' \<notin> set (alphabet msa) \<longrightarrow> (c' # out) ! j = CHR ''*'') \<and>
                  (isalpha b \<and> b \<notin> set (alphabet msa) \<longrightarrow> (c' # out) ! j = CHR ''N'') \<and>
                  (b \<in> set (alphabet msa) \<or> b = GAP_CHAR \<longrightarrow> (c' # out) ! j = b))"
  proof (intro allI impI)
    fix j assume "j < length (c # line)"
    then show "(let b = (if do_toupper then toupper ((c # line) ! j) else (c # line) ! j)
               in (b = CHR ''.'' \<and> CHR ''.'' \<notin> set (alphabet msa) \<longrightarrow> (c' # out) ! j = CHR ''*'') \<and>
                  (isalpha b \<and> b \<notin> set (alphabet msa) \<longrightarrow> (c' # out) ! j = CHR ''N'') \<and>
                  (b \<in> set (alphabet msa) \<or> b = GAP_CHAR \<longrightarrow> (c' # out) ! j = b))"
      using c'(2,3,4) out(3) by (cases j) (simp_all add: Let_def)
  qed
  then show ?case using c'(1) out(1,2) by simp
qed

text \<open>
  C4, as the claim states it, fails. With the default alphabet the character \<^verbatim>\<open>.\<close> is
  not a gap, not a missing-data symbol, not in the alphabet and not alphabetic, yet the
  PHYLIP and MPM branch reads it as missing data instead of stopping with an error.
\<close>

theorem phylip_dot_counterexample:
  "unrecognized (msa_new None [] 1 4 None) (CHR ''.'') \<and> \<not> isalpha (CHR ''.'') \<and>
   phylip_scan_line (msa_new None [] 1 4 None) True ''AC.T'' [] = Inr ''AC*T''"
  by code_simp

text \<open>
  C4 (amended), for a line of 7-bit characters read into an alignment made by
  \<^verbatim>\<open>msa_new\<close>; \<open>b\<close> is a character after the upcasing that is done when the alphabet
  has no lowercase letter.

  In the PHYLIP and MPM branch of \<^verbatim>\<open>msa_new_from_file\<close> white space is passed over; a
  \<^verbatim>\<open>.\<close> that is not in the alphabet is stored as the first missing-data character
  \<^verbatim>\<open>*\<close>; every other character that is not a gap, not a missing-data symbol and not
  in the alphabet is stored as \<^verbatim>\<open>N\<close> if it is alphabetic and ends the read with the
  fatal error "bad character" if it is not; every other character is stored as it is.

  In \<^verbatim>\<open>msa_read_fasta\<close> a \<^verbatim>\<open>.\<close> that is not in the alphabet is stored as \<^verbatim>\<open>*\<close>,
  a letter that is not in the alphabet as \<^verbatim>\<open>N\<close>, a character of the alphabet and
  the gap character as they are. (What the FASTA reader does with other characters is
  not part of the statement.)
\<close>

theorem read_unrecognized_characters:
  assumes "missing msa = DEFAULT_MDATA_CHARS" and "list_all ascii line"
  shows
    "((\<forall>c\<in>set line. \<not> isspace c \<longrightarrow>
         (let b = (if do_toupper then toupper c else c)
          in b = CHR ''.'' \<or> \<not> unrecognized msa b \<or> isalpha b)) \<longrightarrow>
      phylip_scan_line msa do_toupper line seq =
        Inr (seq @ map (\<lambda>c. let b = (if do_toupper then toupper c else c)
                             in if b = CHR ''.'' \<and> CHR ''.'' \<notin> set (alphabet msa) then CHR ''*''
                                else if unrecognized msa b then CHR ''N'' else b)
                     (filter (\<lambda>c. \<not> isspace c) line))) \<and>
     ((\<exists>c\<in>set line. \<not> isspace c \<and>
         (let b = (if do_toupper then toupper c else c)
          in b \<noteq> CHR ''.'' \<and> unrecognized msa b \<and> \<not> isalpha b)) \<longrightarrow>
      (\<exists>b. b \<noteq> CHR ''.'' \<and> unrecognized msa b \<and> \<not> isalpha b \<and>
            phylip_scan_line msa do_toupper line seq = Inl (bad_character b))) \<and>
     (\<exists>out. fasta_scan_row msa do_toupper line = Inr out \<and> length out = length line \<and>
        (\<forall>j<length line.
           (let b = (if do_toupper then toupper (line ! j) else line ! j)
            in (b = CHR ''.'' \<and> CHR ''.'' \<notin> set (alphabet msa) \<longrightarrow> out ! j = CHR ''*'') \<and>
               (isalpha b \<and> b \<notin> set (alphabet msa) \<longrightarrow> out ! j = CHR ''N'') \<and>
               (b \<in> set (alphabet msa) \<or> b = GAP_CHAR \<longrightarrow> out ! j = b))))"
  using phylip_scan_line_accepts [OF assms, of do_toupper seq]
    phylip_scan_line_rejects [OF assms, of do_toupper seq]
    fasta_scan_row_chars [OF assms, of do_toupper]
  by blast

theorem read_unrecognized_characters_witness:
  "phylip_scan_line (msa_new None [] 1 6 None) True ''ac.N -x'' [] = Inr ''AC*N-N'' \<and>
   (\<exists>b. b \<noteq> CHR ''.'' \<and> unrecognized (msa_new None [] 1 6 None) b \<and> \<not> isalpha b \<and>
        phylip_scan_line (msa_new None [] 1 6 None) True ''AC#T'' [] = Inl (bad_character b)) \<and>
   (\<exists>out. fasta_scan_row (msa_new None [] 1 6 None) True ''ac.x-'' = Inr out \<and>
          out ! 0 = CHR ''A'' \<and> out ! 2 = CHR ''*'' \<and> out ! 3 = CHR ''N'' \<and> out ! 4 = CHR ''-'')"
proof -
  let ?m = "msa_new None [] 1 6 None"
  have m: "missing ?m = DEFAULT_MDATA_CHARS" by (simp add: msa_new_def)
  have a: "list_all ascii ''ac.N -x''" "list_all ascii ''AC#T''" "list_all ascii ''ac.x-''"
    by code_simp+
  have ok: "\<forall>c\<in>set ''ac.N -x''. \<not> isspace c \<longrightarrow>
         (let b = (if True then toupper c else c)
          in b = CHR ''.'' \<or> \<not> unrecognized ?m b \<or> isalpha b)"
    by code_simp
  have bad: "\<exists>c\<in>set ''AC#T''. \<not> isspace c \<and>
         (let b = (if True then toupper c else c)
          in b \<noteq> CHR ''.'' \<and> unrecognized ?m b \<and> \<not> isalpha b)"
    by code_simp
  have v1: "[] @ map (\<lambda>c. let b = (if True then toupper c else c)
                             in if b = CHR ''.'' \<and> CHR ''.'' \<notin> set (alphabet ?m) then CHR ''*''
                                else if unrecognized ?m b then CHR ''N'' else b)
                     (filter (\<lambda>c. \<not> isspace c) ''ac.N -x'') = ''AC*N-N''"
    by code_simp
  have one: "phylip_scan_line ?m True ''ac.N -x'' [] = Inr ''AC*N-N''"
    using read_unrecognized_characters [OF m a(1), of True "[]"] ok unfolding v1 by blast
  have two: "\<exists>b. b \<noteq> CHR ''.'' \<and> unrecognized ?m b \<and> \<not> isalpha b \<and>
        phylip_scan_line ?m True ''AC#T'' [] = Inl (bad_character b)"
    using read_unrecognized_characters [OF m a(2), of True "[]"] bad by blast
  from read_unrecognized_characters [OF m a(3), of True "[]"]
  obtain out where out: "fasta_scan_row ?m True ''ac.x-'' = Inr out"
    "\<forall>j<length ''ac.x-''.
           (let b = (if True then toupper (''ac.x-'' ! j) else ''ac.x-'' ! j)
            in (b = CHR ''.'' \<and> CHR ''.'' \<notin> set (alphabet ?m) \<longrightarrow> out ! j = CHR ''*'') \<and>
               (isalpha b \<and> b \<notin> set (alphabet ?m) \<longrightarrow> out ! j = CHR ''N'') \<and>
               (b \<in> set (alphabet ?m) \<or> b = GAP_CHAR \<longrightarrow> out ! j = b))"
    by blast
  have f0: "toupper (''ac.x-'' ! 0) = CHR ''A''" "CHR ''A'' \<in> set (alphabet ?m)"
    and f2: "toupper (''ac.x-'' ! 2) = CHR ''.''" "CHR ''.'' \<notin> set (alphabet ?m)"
    and f3: "toupper (''ac.x-'' ! 3) = CHR ''X''" "isalpha (CHR ''X'')" "CHR ''X'' \<notin> set (alphabet ?m)"
    and f4: "toupper (''ac.x-'' ! 4) = GAP_CHAR" "GAP_CHAR = CHR ''-''"
    by code_simp+
  have "out ! 0 = CHR ''A''" using out(2) [rule_format, of 0] f0 by (simp add: Let_def)
  moreover have "out ! 2 = CHR ''*''" using out(2) [rule_format, of 2] f2 by (simp add: Let_def)
  moreover have "out ! 3 = CHR ''N''" using out(2) [rule_format, of 3] f3 by (simp add: Let_def)
  moreover have "out ! 4 = CHR ''-''" using out(2) [rule_format, of 4] f4 by (simp add: Let_def)
  ultimately show ?thesis using one two out(1) by blast
qed

text \<open>
  The FASTA reader has no counterpart of the "bad character" error: a digit in the
  sequence text stays in the row.
\<close>

lemma msa_read_fasta_keeps_digit:
  "fasta_scan_row (msa_new None [] 1 4 None) True ''AC1T'' = Inr ''AC1T''"
  by code_simp

section \<open>Cleaning an alignment of coding sequences\<close>

text \<open>
  \<^verbatim>\<open>#define KEEP_STOP_CODONS 0\<close>: stop codons are not retained.
\<close>

definition KEEP_STOP_CODONS :: bool where
  "KEEP_STOP_CODONS = False"

text \<open>
  \<^verbatim>\<open>msa_coding_clean\<close> declares \<^verbatim>\<open>beg\<close>, \<^verbatim>\<open>end\<close> and \<^verbatim>\<open>tmp_codon\<close> without initial
  values and reads them on some paths before any assignment (for instance \<^verbatim>\<open>beg\<close> when
  the reference row consists of gaps only). The model takes what they hold at that
  moment as a parameter, and likewise the byte found by a read outside a row buffer
  (\<open>stray j i\<close> for index \<open>i\<close> of row \<open>j\<close>) or outside the array \<^verbatim>\<open>ngaps\<close>
  (\<open>stray_ngaps j\<close>): such a read does not trap in C, it gives whatever lies there. The
  theorems below hold for every choice of these values.
\<close>

record indeterminate =
  beg0 :: int
  end0 :: int
  tmp_codon0 :: "char \<times> char \<times> char"
  stray :: "nat \<Rightarrow> int \<Rightarrow> char"
  stray_ngaps :: "nat \<Rightarrow> int"

text \<open>\<^verbatim>\<open>msa->seqs[j][i]\<close> as a read.\<close>

definition seq_char :: "indeterminate \<Rightarrow> string list \<Rightarrow> nat \<Rightarrow> int \<Rightarrow> char" where
  "seq_char env rows j i =
     (if j < length rows \<and> 0 \<le> i \<and> i < int (length (rows ! j)) then rows ! j ! nat i
      else stray env j i)"

text \<open>\<^verbatim>\<open>tmp_codon[pos] = c\<close>.\<close>

definition set_codon :: "char \<times> char \<times> char \<Rightarrow> int \<Rightarrow> char \<Rightarrow> char \<times> char \<times> char" where
  "set_codon codon pos c =
     (if pos = 0 then (c, fst (snd codon), snd (snd codon))
      else if pos = 1 then (fst codon, c, snd (snd codon))
      else (fst codon, fst (snd codon), c))"

text \<open>The macros \<^verbatim>\<open>IS_START\<close> and \<^verbatim>\<open>IS_STOP\<close>, on the three characters they read.\<close>

definition IS_START :: "char \<times> char \<times> char \<Rightarrow> bool" where
  "IS_START codon \<longleftrightarrow>
     toupper (fst codon) = CHR ''A'' \<and> toupper (fst (snd codon)) = CHR ''T'' \<and>
     toupper (snd (snd codon)) = CHR ''G''"

definition IS_STOP :: "char \<times> char \<times> char \<Rightarrow> bool" where
  "IS_STOP codon \<longleftrightarrow>
     toupper (fst codon) = CHR ''T'' \<and>
     ((toupper (fst (snd codon)) = CHR ''A'' \<and>
       (toupper (snd (snd codon)) = CHR ''A'' \<or> toupper (snd (snd codon)) = CHR ''G'')) \<or>
      (toupper (fst (snd codon)) = CHR ''G'' \<and> toupper (snd (snd codon)) = CHR ''A''))"

text \<open>The three characters of row \<open>j\<close> from column \<open>i\<close> on.\<close>

definition codon_at :: "indeterminate \<Rightarrow> string list \<Rightarrow> nat \<Rightarrow> int \<Rightarrow> char \<times> char \<times> char" where
  "codon_at env rows j i = (seq_char env rows j i, seq_char env rows j (i + 1), seq_char env rows j (i + 2))"

subsection \<open>Start and stop codon of the reference row\<close>

text \<open>\<^verbatim>\<open>for (; i < msa->length && ref[i] == GAP_CHAR; i++);\<close>\<close>

function skip_gaps_fwd :: "indeterminate \<Rightarrow> string list \<Rightarrow> nat \<Rightarrow> int \<Rightarrow> int \<Rightarrow> int" where
  "skip_gaps_fwd env rows r len i =
     (if i < len \<and> seq_char env rows r i = GAP_CHAR then skip_gaps_fwd env rows r len (i + 1)
      else i)"
  by pat_completeness auto
termination
  by (relation "measure (\<lambda>(env, rows, r, len, i). nat (len - i))") auto

declare skip_gaps_fwd.simps [simp del]

text \<open>
  \<^verbatim>\<open>for (pos = 0, i = 0; pos < 3; pos++)\<close>: the first three non-gap characters of the
  reference row go to \<^verbatim>\<open>tmp_codon\<close>, the column of the first to \<^verbatim>\<open>beg\<close>. The result is
  \<open>(i, beg, tmp_codon)\<close>.
\<close>

function find_start ::
  "indeterminate \<Rightarrow> string list \<Rightarrow> nat \<Rightarrow> int \<Rightarrow> int \<Rightarrow> int \<Rightarrow> int \<Rightarrow> char \<times> char \<times> char \<Rightarrow>
   int \<times> int \<times> (char \<times> char \<times> char)" where
  "find_start env rows r len pos i beg codon =
     (if pos < 3 then
        (let i1 = skip_gaps_fwd env rows r len i in
           if i1 = len then (i1, beg, codon)
           else find_start env rows r len (pos + 1) (i1 + 1) (if pos = 0 then i1 else beg)
                  (set_codon codon pos (seq_char env rows r i1)))
      else (i, beg, codon))"
  by pat_completeness auto
termination
  by (relation "measure (\<lambda>(env, rows, r, len, pos, i, beg, codon). nat (3 - pos))") auto

declare find_start.simps [simp del]

text \<open>\<^verbatim>\<open>for (; i > beg && ref[i] == GAP_CHAR; i--);\<close>\<close>

function skip_gaps_bwd :: "indeterminate \<Rightarrow> string list \<Rightarrow> nat \<Rightarrow> int \<Rightarrow> int \<Rightarrow> int" where
  "skip_gaps_bwd env rows r beg i =
     (if i > beg \<and> seq_char env rows r i = GAP_CHAR then skip_gaps_bwd env rows r beg (i - 1)
      else i)"
  by pat_completeness auto
termination
  by (relation "measure (\<lambda>(env, rows, r, beg, i). nat (i - beg))") auto

declare skip_gaps_bwd.simps [simp del]

text \<open>
  \<^verbatim>\<open>for (pos = 2; pos >= (KEEP_STOP_CODONS ? 0 : -1); pos--)\<close>: the last three non-gap
  characters above \<^verbatim>\<open>beg\<close> go to \<^verbatim>\<open>tmp_codon\<close>; with stop codons not kept, a fourth
  round sets \<^verbatim>\<open>end\<close> to the column of the non-gap character before them. The result
  is \<open>(i, end, tmp_codon)\<close>.
\<close>

function find_stop ::
  "indeterminate \<Rightarrow> string list \<Rightarrow> nat \<Rightarrow> int \<Rightarrow> int \<Rightarrow> int \<Rightarrow> int \<Rightarrow> char \<times> char \<times> char \<Rightarrow>
   int \<times> int \<times> (char \<times> char \<times> char)" where
  "find_stop env rows r beg pos i en codon =
     (if pos \<ge> (if KEEP_STOP_CODONS then 0 else - 1) then
        (let i1 = skip_gaps_bwd env rows r beg i in
           if i1 = beg then (i1, en, codon)
           else
             (let en1 = (if (pos = 2 \<and> KEEP_STOP_CODONS) \<or> pos = - 1 then i1 else en) in
                if pos \<ge> 0 then
                  find_stop env rows r beg (pos - 1) (i1 - 1) en1
                    (set_codon codon pos (seq_char env rows r i1))
                else find_stop env rows r beg (pos - 1) i1 en1 codon))
      else (i, en, codon))"
  by pat_completeness auto
termination
  by (relation "measure (\<lambda>(env, rows, r, beg, pos, i, en, codon). nat (pos + 2))")
    (auto simp: KEEP_STOP_CODONS_def)

declare find_stop.simps [simp del]

subsection \<open>The scan for blocks of gapless codons\<close>

text \<open>
  The variables of the main loop that live across its rounds: the column \<^verbatim>\<open>i\<close>, the
  \<^verbatim>\<open>frame\<close>, the gap counts \<^verbatim>\<open>ngaps\<close> (one per row), the two lists of block bounds and
  \<^verbatim>\<open>trunc\<close>.
\<close>

record scan_state =
  st_i :: int
  st_frame :: int
  st_ngaps :: "int list"
  st_block_begs :: "int list"
  st_block_ends :: "int list"
  st_trunc :: int

text \<open>\<^verbatim>\<open>ngaps[j]\<close> as a read; the array has one entry per row.\<close>

definition ngaps_at :: "indeterminate \<Rightarrow> int list \<Rightarrow> nat \<Rightarrow> int" where
  "ngaps_at env ngaps j = (if j < length ngaps then ngaps ! j else stray_ngaps env j)"

text \<open>For every row, whether it has a gap in column \<open>i\<close>.\<close>

definition column_gaps :: "indeterminate \<Rightarrow> string list \<Rightarrow> nat \<Rightarrow> int \<Rightarrow> bool list" where
  "column_gaps env rows n i = map (\<lambda>j. seq_char env rows j i = GAP_CHAR) [0..<n]"

text \<open>
  The inner \<^verbatim>\<open>while (i <= end)\<close>: it looks for the next column of codons without a gap,
  keeping the frame with respect to the reference row and counting the gaps of every
  row on the way. Leaving by \<^verbatim>\<open>break\<close> it returns a column \<open>i \<le> end\<close>, the last of the
  three; otherwise \<open>i > end\<close>. The result is \<open>(i, frame, ngaps)\<close>.
\<close>

function next_gapless_codon ::
  "indeterminate \<Rightarrow> string list \<Rightarrow> nat \<Rightarrow> nat \<Rightarrow> int \<Rightarrow> int \<Rightarrow> int \<Rightarrow> int list \<Rightarrow> bool \<Rightarrow>
   int \<times> int \<times> int list" where
  "next_gapless_codon env rows r n en i frm ngaps gapless_codon_col =
     (if i \<le> en then
        (let gaps = column_gaps env rows n i;
             ngaps1 = map2 (\<lambda>g is_gap. if is_gap then g + 1 else g) ngaps gaps;
             gapless1 = (gapless_codon_col \<and> list_all Not gaps)
         in if gapless1 \<and> frm = 2 then (i, frm, ngaps1)
            else if seq_char env rows r (i + 1) \<noteq> GAP_CHAR then
              (if frm + 1 = 3 then next_gapless_codon env rows r n en (i + 1) 0 ngaps1 True
               else next_gapless_codon env rows r n en (i + 1) (frm + 1) ngaps1 gapless1)
            else next_gapless_codon env rows r n en (i + 1) frm ngaps1 gapless1)
      else (i, frm, ngaps))"
  by pat_completeness auto
termination
  by (relation "measure (\<lambda>(env, rows, r, n, en, i, frm, ngaps, g). nat (en + 1 - i))") auto

declare next_gapless_codon.simps [simp del]

text \<open>\<^verbatim>\<open>for (i++; i <= end; i++)\<close>: the next column in which some row has a gap.\<close>

function next_gap_column :: "indeterminate \<Rightarrow> string list \<Rightarrow> nat \<Rightarrow> int \<Rightarrow> int \<Rightarrow> int" where
  "next_gap_column env rows n en i =
     (if i \<le> en then
        (if \<not> list_all Not (column_gaps env rows n i) then i
         else next_gap_column env rows n en (i + 1))
      else i)"
  by pat_completeness auto
termination
  by (relation "measure (\<lambda>(env, rows, n, en, i). nat (en + 1 - i))") auto

declare next_gap_column.simps [simp del]

text \<open>
  The check of a block for in-frame stop codons. The inner loop,
  \<^verbatim>\<open>for (k = 0; k < msa->nseqs && trunc == 0; k++)\<close>, looks at the codon at column \<open>j\<close>
  of every row; a stop codon sets both \<^verbatim>\<open>trunc\<close> and \<^verbatim>\<open>blk_end\<close>. The result is
  \<open>(trunc, blk_end)\<close>.
\<close>

function stop_scan_rows ::
  "indeterminate \<Rightarrow> string list \<Rightarrow> nat \<Rightarrow> int \<Rightarrow> nat \<Rightarrow> int \<Rightarrow> int \<Rightarrow> int \<times> int" where
  "stop_scan_rows env rows n j k trunc blk_end =
     (if k < n \<and> trunc = 0 then
        (if IS_STOP (codon_at env rows k j) then
           stop_scan_rows env rows n j (k + 1)
             (if KEEP_STOP_CODONS then j + 2 else j - 1) (if KEEP_STOP_CODONS then j + 2 else j - 1)
         else stop_scan_rows env rows n j (k + 1) trunc blk_end)
      else (trunc, blk_end))"
  by pat_completeness auto
termination
  by (relation "measure (\<lambda>(env, rows, n, j, k, trunc, blk_end). n - k)") auto

declare stop_scan_rows.simps [simp del]

lemma stop_scan_rows_blk_end:
  "snd (stop_scan_rows env rows n j k trunc blk_end) = blk_end \<or>
   snd (stop_scan_rows env rows n j k trunc blk_end) = (if KEEP_STOP_CODONS then j + 2 else j - 1)"
proof (induction "n - k" arbitrary: k trunc blk_end)
  case 0
  then have "stop_scan_rows env rows n j k trunc blk_end = (trunc, blk_end)"
    by (subst stop_scan_rows.simps) simp
  then show ?case by simp
next
  case (Suc d)
  then have d: "d = n - (k + 1)" and kn: "k < n" by simp_all
  let ?new = "if KEEP_STOP_CODONS then j + 2 else j - 1"
  show ?case
  proof (cases "trunc = 0")
    case False
    then have "stop_scan_rows env rows n j k trunc blk_end = (trunc, blk_end)"
      by (subst stop_scan_rows.simps) simp
    then show ?thesis by simp
  next
    case True
    show ?thesis
    proof (cases "IS_STOP (codon_at env rows k j)")
      case stop: True
      have "stop_scan_rows env rows n j k trunc blk_end =
            stop_scan_rows env rows n j (k + 1) ?new ?new"
        using True stop kn by (subst stop_scan_rows.simps) simp
      then show ?thesis using Suc.hyps(1) [OF d, of ?new ?new] by auto
    next
      case nostop: False
      have "stop_scan_rows env rows n j k trunc blk_end =
            stop_scan_rows env rows n j (k + 1) trunc blk_end"
        using True nostop kn by (subst stop_scan_rows.simps) simp
      then show ?thesis using Suc.hyps(1) [OF d, of trunc blk_end] by simp
    qed
  qed
qed

text \<open>
  The outer loop of that check, \<^verbatim>\<open>for (j = blk_beg; j <= blk_end - 2 && trunc == 0; j += 3)\<close>.
  Its bound \<^verbatim>\<open>blk_end\<close> is the variable that the inner loop assigns.
\<close>

function stop_scan ::
  "indeterminate \<Rightarrow> string list \<Rightarrow> nat \<Rightarrow> int \<Rightarrow> int \<Rightarrow> int \<Rightarrow> int \<Rightarrow> int \<times> int" where
  "stop_scan env rows n en j trunc blk_end =
     (if j \<le> blk_end - 2 \<and> trunc = 0 then
        (if KEEP_STOP_CODONS \<and> j = en - 2 then (trunc, blk_end)
         else stop_scan env rows n en (j + 3)
                (fst (stop_scan_rows env rows n j 0 trunc blk_end))
                (snd (stop_scan_rows env rows n j 0 trunc blk_end)))
      else (trunc, blk_end))"
  by pat_completeness auto
termination
proof (relation "measure (\<lambda>(env, rows, n, en, j, trunc, blk_end). nat (blk_end - j))")
  show "wf (measure (\<lambda>(env, rows, n, en, j, trunc, blk_end). nat (blk_end - j)))" by simp
next
  fix env :: indeterminate and rows :: "string list" and n :: nat and en j trunc blk_end :: int
  assume "j \<le> blk_end - 2 \<and> trunc = 0"
  then have "snd (stop_scan_rows env rows n j 0 trunc blk_end) \<le> blk_end" "j < blk_end"
    using stop_scan_rows_blk_end [of env rows n j 0 trunc blk_end] by auto
  then show "((env, rows, n, en, j + 3, fst (stop_scan_rows env rows n j 0 trunc blk_end),
                snd (stop_scan_rows env rows n j 0 trunc blk_end)),
               (env, rows, n, en, j, trunc, blk_end))
              \<in> measure (\<lambda>(env, rows, n, en, j, trunc, blk_end). nat (blk_end - j))"
    by (simp add: case_prod_beta)
qed

declare stop_scan.simps [simp del]

text \<open>How one round of the main loop ends.\<close>

datatype scan_step = Continue scan_state | Stop scan_state | Failed error

text \<open>
  The body of the main loop \<^verbatim>\<open>while (i <= end && retval != 1)\<close>. The two assertions are
  kept. \<^verbatim>\<open>(i - blk_beg)/3\<close> divides a positive number, so it agrees with \<open>div\<close>;
  \<^verbatim>\<open>ngaps[j] % 3\<close> is the remainder of C.
\<close>

definition scan_block ::
  "indeterminate \<Rightarrow> string list \<Rightarrow> nat \<Rightarrow> nat \<Rightarrow> int \<Rightarrow> int \<Rightarrow> int \<Rightarrow> scan_state \<Rightarrow> scan_step" where
  "scan_block env rows r n beg en min_ncodons st =
     (if \<not> (st_frame st = 0 \<or> seq_char env rows r (st_i st) = GAP_CHAR) then Failed Assertion_failed
      else
        (case next_gapless_codon env rows r n en (st_i st) (st_frame st) (st_ngaps st) True of
           (i1, frm1, ngaps1) \<Rightarrow>
             if i1 > en then Stop (st\<lparr>st_i := i1, st_frame := frm1, st_ngaps := ngaps1\<rparr>)
             else if frm1 \<noteq> 2 then Failed Assertion_failed
             else
               (let blk_beg = i1 - 2;
                    i2 = next_gap_column env rows n en (i1 + 1);
                    blk_size = (i2 - blk_beg) div 3;
                    blk_end = blk_beg + blk_size * 3 - 1;
                    i3 = blk_end + 1;
                    frm3 = (if seq_char env rows r i3 \<noteq> GAP_CHAR then 0 else 2);
                    st1 = st\<lparr>st_i := i3, st_frame := frm3, st_ngaps := ngaps1\<rparr>
                in if blk_size \<ge> min_ncodons then
                     (if blk_beg = beg \<and>
                         \<not> list_all (\<lambda>j. IS_START (codon_at env rows j blk_beg)) [0..<n]
                      then Continue st1
                      else if blk_end = en \<and> KEEP_STOP_CODONS \<and>
                         \<not> list_all (\<lambda>j. IS_STOP (codon_at env rows j (blk_end - 2))) [0..<n]
                      then Continue st1
                      else
                        (let trunc1 =
                               (if st_block_begs st \<noteq> [] \<and>
                                   \<not> list_all (\<lambda>j. c_rem (ngaps_at env ngaps1 j) 3 =
                                                   c_rem (ngaps_at env ngaps1 r) 3) [0..<n]
                                then last (st_block_ends st) + 1 else st_trunc st);
                             trunc2 = fst (stop_scan env rows n en blk_beg trunc1 blk_end);
                             blk_end2 = snd (stop_scan env rows n en blk_beg trunc1 blk_end);
                             st2 = (if trunc2 = 0 \<or> trunc2 > blk_beg
                                    then st1\<lparr>st_block_begs := st_block_begs st @ [blk_beg],
                                             st_block_ends := st_block_ends st @ [blk_end2],
                                             st_trunc := trunc2\<rparr>
                                    else st1\<lparr>st_trunc := trunc2\<rparr>)
                         in if trunc2 \<noteq> 0 then Stop st2
                            else Continue (st2\<lparr>st_ngaps := replicate n 0\<rparr>)))
                   else Continue st1)))"

lemma next_gapless_codon_ge:
  "i \<le> fst (next_gapless_codon env rows r n en i frm ngaps g)"
proof (induction "nat (en + 1 - i)" arbitrary: i frm ngaps g)
  case 0
  then show ?case by (subst next_gapless_codon.simps) simp
next
  case (Suc d)
  then have d: "d = nat (en + 1 - (i + 1))" by simp
  have "i \<le> fst (next_gapless_codon env rows r n en (i + 1) frm' ngaps' g')" for frm' ngaps' g'
  proof -
    have "i + 1 \<le> fst (next_gapless_codon env rows r n en (i + 1) frm' ngaps' g')"
      using Suc.hyps(1) [OF d] .
    then show ?thesis by linarith
  qed
  then show ?case
    by (subst next_gapless_codon.simps) (simp add: Let_def)
qed

lemma next_gap_column_ge: "i \<le> next_gap_column env rows n en i"
proof (induction "nat (en + 1 - i)" arbitrary: i)
  case 0
  then show ?case by (subst next_gap_column.simps) simp
next
  case (Suc d)
  then have d: "d = nat (en + 1 - (i + 1))" by simp
  from Suc.hyps(1) [OF d] have "i \<le> next_gap_column env rows n en (i + 1)" by simp
  then show ?case by (subst next_gap_column.simps) simp
qed

lemma scan_block_progress:
  assumes "scan_block env rows r n beg en min_ncodons st = Continue st'"
  shows "st_i st < st_i st'"
proof -
  obtain i1 frm1 ngaps1 where
    a: "next_gapless_codon env rows r n en (st_i st) (st_frame st) (st_ngaps st) True = (i1, frm1, ngaps1)"
    by (cases "next_gapless_codon env rows r n en (st_i st) (st_frame st) (st_ngaps st) True") blast
  have i1: "st_i st \<le> i1"
    using next_gapless_codon_ge [of "st_i st" env rows r n en "st_frame st" "st_ngaps st" True] a
    by simp
  define i2 where "i2 = next_gap_column env rows n en (i1 + 1)"
  have i2: "i1 + 1 \<le> i2" unfolding i2_def by (rule next_gap_column_ge)
  define i3 where "i3 = i1 - 2 + (i2 - (i1 - 2)) div 3 * 3 - 1 + 1"
  have "1 \<le> (i2 - (i1 - 2)) div 3" using i2 by (simp add: pos_imp_zdiv_pos_iff)
  then have i3: "i1 < i3" by (simp add: i3_def)
  have "st_i st' = i3"
    using assms a
    by (auto simp: scan_block_def Let_def i2_def i3_def split: if_splits)
  with i1 i3 show ?thesis by simp
qed

text \<open>
  The main loop. It is only entered with \<^verbatim>\<open>retval\<close> 0, and nothing in it assigns
  \<^verbatim>\<open>retval\<close>.
\<close>

function scan_blocks ::
  "indeterminate \<Rightarrow> string list \<Rightarrow> nat \<Rightarrow> nat \<Rightarrow> int \<Rightarrow> int \<Rightarrow> int \<Rightarrow> scan_state \<Rightarrow> error + scan_state" where
  "scan_blocks env rows r n beg en min_ncodons st =
     (if st_i st \<le> en then
        (case scan_block env rows r n beg en min_ncodons st of
           Continue st' \<Rightarrow> scan_blocks env rows r n beg en min_ncodons st'
         | Stop st' \<Rightarrow> Inr st'
         | Failed err \<Rightarrow> Inl err)
      else Inr st)"
  by pat_completeness auto
termination
proof (relation "measure (\<lambda>(env, rows, r, n, beg, en, min_ncodons, st). nat (en + 1 - st_i st))")
  show "wf (measure (\<lambda>(env, rows, r, n, beg, en, min_ncodons, st). nat (en + 1 - st_i st)))"
    by simp
next
  fix env :: indeterminate and rows :: "string list" and r n :: nat
    and beg en min_ncodons :: int and st st' :: scan_state
  assume "st_i st \<le> en" and "scan_block env rows r n beg en min_ncodons st = Continue st'"
  then have "st_i st < st_i st'" "st_i st \<le> en" using scan_block_progress by simp_all
  then show "((env, rows, r, n, beg, en, min_ncodons, st'), (env, rows, r, n, beg, en, min_ncodons, st))
              \<in> measure (\<lambda>(env, rows, r, n, beg, en, min_ncodons, st). nat (en + 1 - st_i st))"
    by simp
qed

declare scan_blocks.simps [simp del]

subsection \<open>Rewriting the alignment\<close>

text \<open>
  \<^verbatim>\<open>for (l = 0; l < msa->nseqs; l++) msa->seqs[l][i] = c(l)\<close>: a write into column \<open>i\<close>
  of every row. A write outside a row buffer damages memory that is not part of the
  model; it is a failure here.
\<close>

definition write_column ::
  "string list \<Rightarrow> nat \<Rightarrow> int \<Rightarrow> (nat \<Rightarrow> char) \<Rightarrow> error + string list" where
  "write_column rows n i c =
     (if list_all (\<lambda>l. l < length rows \<and> 0 \<le> i \<and> i < int (length (rows ! l))) [0..<n]
      then Inr (for_rows_idx n (\<lambda>l row. row[nat i := c l]) rows)
      else Inl Out_of_bounds)"

text \<open>
  \<^verbatim>\<open>for (k = blk_beg; k <= blk_end; k++)\<close>: the columns of one block are copied down to
  position \<open>i\<close> onwards. The result is the rows and the new \<open>i\<close>.
\<close>

function copy_block ::
  "indeterminate \<Rightarrow> string list \<Rightarrow> nat \<Rightarrow> int \<Rightarrow> int \<Rightarrow> int \<Rightarrow> error + (string list \<times> int)" where
  "copy_block env rows n k blk_end i =
     (if k \<le> blk_end then
        (case write_column rows n i (\<lambda>l. seq_char env rows l k) of
           Inl err \<Rightarrow> Inl err
         | Inr rows' \<Rightarrow> copy_block env rows' n (k + 1) blk_end (i + 1))
      else Inr (rows, i))"
  by pat_completeness auto
termination
  by (relation "measure (\<lambda>(env, rows, n, k, blk_end, i). nat (blk_end + 1 - k))") auto

declare copy_block.simps [simp del]

text \<open>
  \<^verbatim>\<open>for (i = 0, j = 0; j < lst_size(block_begs); j++)\<close>, over the bounds of the accepted
  blocks; the assertion \<^verbatim>\<open>(blk_end - blk_beg + 1) % 3 == 0\<close> is divisibility by 3.
\<close>

fun copy_blocks ::
  "indeterminate \<Rightarrow> string list \<Rightarrow> nat \<Rightarrow> (int \<times> int) list \<Rightarrow> int \<Rightarrow> error + (string list \<times> int)" where
  "copy_blocks env rows n [] i = Inr (rows, i)"
| "copy_blocks env rows n ((blk_beg, blk_end) # blocks) i =
     (if (blk_end - blk_beg + 1) mod 3 \<noteq> 0 then Inl Assertion_failed
      else (case copy_block env rows n blk_beg blk_end i of
              Inl err \<Rightarrow> Inl err
            | Inr (rows', i') \<Rightarrow> copy_blocks env rows' n blocks i'))"

text \<open>
  "now overwrite alignment with just the acceptable blocks": the blocks are moved to
  the front, the length is set, and every row is terminated.
\<close>

definition overwrite_alignment ::
  "indeterminate \<Rightarrow> MSA \<Rightarrow> string list \<Rightarrow> scan_state \<Rightarrow> error + MSA" where
  "overwrite_alignment env msa rows st =
     (case copy_blocks env rows (nseqs msa) (zip (st_block_begs st) (st_block_ends st)) 0 of
        Inl err \<Rightarrow> Inl err
      | Inr (rows', i) \<Rightarrow>
          if i mod 3 \<noteq> 0 then Inl Assertion_failed
          else (case write_column rows' (nseqs msa) i (\<lambda>l. NUL) of
                  Inl err \<Rightarrow> Inl err
                | Inr rows'' \<Rightarrow> Inr (msa\<lparr>seqs := Some rows'', length_msa := nat i\<rparr>)))"

subsection \<open>The function\<close>

text \<open>
  Modelled from the spec: \<^verbatim>\<open>str_append_int\<close> of stringsplus.c (not among the sources),
  used for the position in the last message; it is taken to append the decimal form of
  the number.
\<close>

function decimal :: "nat \<Rightarrow> string" where
  "decimal k = (if k < 10 then [char_of (48 + k)] else decimal (k div 10) @ [char_of (48 + k mod 10)])"
  by pat_completeness auto
termination
  by (relation "measure (\<lambda>k. k)") auto

declare decimal.simps [simp del]

definition str_of_int :: "int \<Rightarrow> string" where
  "str_of_int v = (if v < 0 then CHR ''-'' # decimal (nat (- v)) else decimal (nat v))"

text \<open>
  The test \<^verbatim>\<open>trunc < beg + (end - beg + 1) * 0.8\<close>, which C evaluates in double
  precision, read as the exact comparison of \<open>trunc - beg\<close> with four fifths of the
  span. For operands of type \<^verbatim>\<open>int\<close> the two agree: the rounded product is the exact
  one when that is an integer, and otherwise lies on the same side of every integer.
\<close>

definition before_last_fifth :: "int \<Rightarrow> int \<Rightarrow> int \<Rightarrow> bool" where
  "before_last_fifth trunc beg en \<longleftrightarrow> 5 * (trunc - beg) < 4 * (en - beg + 1)"

definition no_start_codon :: string where
  "no_start_codon = ''Reference sequence does not begin with start codon.  ''"

definition no_stop_codon :: string where
  "no_stop_codon = ''Reference sequence does not end with stop codon.''"

definition nothing_left :: string where
  "nothing_left = ''Nothing left after cleaning.''"

definition stop_or_frame_shift :: "int \<Rightarrow> string" where
  "stop_or_frame_shift trunc =
     ''In-frame stop codon or frame shift not in last 20% of alignment.  See approx. position '' @
     str_of_int (trunc + 1) @ ''.''"

text \<open>
  What follows the main loop, up to the comment "now overwrite alignment with just the
  acceptable blocks": two more reasons to reject. The result is \<^verbatim>\<open>retval\<close>, the
  variables of the main loop, and the error string.
\<close>

definition scan_report ::
  "int \<Rightarrow> int \<Rightarrow> int \<Rightarrow> string \<Rightarrow> scan_state \<Rightarrow> int \<times> scan_state \<times> string" where
  "scan_report retval0 beg en errstr2 st =
     (let nothing = (retval0 \<noteq> 1 \<and> st_block_begs st = []);
          errstr3 = (if nothing then errstr2 @ nothing_left else errstr2);
          early = (st_trunc st \<noteq> 0 \<and> before_last_fifth (st_trunc st) beg en);
          errstr4 = (if early then errstr3 @ stop_or_frame_shift (st_trunc st) else errstr3);
          retval = (if retval0 = 1 \<or> nothing \<or> early then 1 else 0 :: int)
      in (retval, st, errstr4))"

text \<open>
  The part of \<^verbatim>\<open>msa_coding_clean\<close> before that comment: it only reads the alignment.
\<close>

definition coding_clean_scan ::
  "indeterminate \<Rightarrow> string list \<Rightarrow> nat \<Rightarrow> nat \<Rightarrow> int \<Rightarrow> int \<Rightarrow> string \<Rightarrow>
   error + (int \<times> scan_state \<times> string)" where
  "coding_clean_scan env rows r n len min_ncodons errstr =
     (let found = find_start env rows r len 0 0 (beg0 env) (tmp_codon0 env);
          i1 = fst found;
          beg = fst (snd found);
          codon1 = snd (snd found);
          no_start = (i1 = len \<or> \<not> IS_START codon1);
          errstr1 = (if no_start then errstr @ no_start_codon else errstr);
          found2 = find_stop env rows r beg 2 (len - 1) (end0 env) codon1;
          i2 = fst found2;
          en = fst (snd found2);
          codon2 = snd (snd found2);
          no_stop = (i2 = beg \<or> \<not> IS_STOP codon2);
          errstr2 = (if no_stop then errstr1 @ no_stop_codon else errstr1);
          retval0 = (if no_start \<or> no_stop then 1 else 0 :: int);
          st0 = \<lparr>st_i = beg, st_frame = 0, st_ngaps = replicate n 0,
                 st_block_begs = [], st_block_ends = [], st_trunc = 0\<rparr>
      in case (if retval0 \<noteq> 1 then scan_blocks env rows r n beg en min_ncodons st0
               else Inr st0) of
           Inl err \<Rightarrow> Inl err
         | Inr st \<Rightarrow> Inr (scan_report retval0 beg en errstr2 st))"

text \<open>
  \<^verbatim>\<open>msa_coding_clean\<close>; \<open>refseq\<close> counts rows from 0 here. The result is the return
  value, the alignment and the error string after the call. The alignment is
  overwritten under \<^verbatim>\<open>if (retval != 1)\<close> only.
\<close>

definition msa_coding_clean ::
  "indeterminate \<Rightarrow> MSA \<Rightarrow> int \<Rightarrow> int \<Rightarrow> string \<Rightarrow> error + (int \<times> MSA \<times> string)" where
  "msa_coding_clean env msa refseq min_ncodons errstr =
     (case seqs msa of
        None \<Rightarrow> Inl Null_dereference
      | Some rows \<Rightarrow>
          if \<not> (0 \<le> refseq \<and> refseq < int (length rows)) then Inl Out_of_bounds
          else
            (case coding_clean_scan env rows (nat refseq) (nseqs msa) (int (length_msa msa))
                    min_ncodons errstr of
               Inl err \<Rightarrow> Inl err
             | Inr (retval, st, errstr') \<Rightarrow>
                 if retval \<noteq> 1 then
                   (case overwrite_alignment env msa rows st of
                      Inl err \<Rightarrow> Inl err
                    | Inr msa' \<Rightarrow> Inr (retval, msa', errstr'))
                 else Inr (retval, msa, errstr')))"

text \<open>
  A one-row alignment of the given reference sequence, as \<^verbatim>\<open>msa_new\<close> makes it, and
  values for the uninitialised variables, to run the function on.
\<close>

definition clean_env :: indeterminate where
  "clean_env = \<lparr>beg0 = 0, end0 = 0, tmp_codon0 = (NUL, NUL, NUL), stray = (\<lambda>j i. NUL),
                 stray_ngaps = (\<lambda>j. 0)\<rparr>"

definition cds_msa :: "string \<Rightarrow> MSA" where
  "cds_msa row = msa_new (Some [row @ [NUL]]) [''ref''] 1 (length row) None"

text \<open>
  The claims' notion of a reference row that begins with a start codon, "allowing for
  interior gaps": the first three non-gap characters of the row are \<^verbatim>\<open>ATG\<close>, in upper
  or lower case.
\<close>

definition begins_with_start_codon :: "MSA \<Rightarrow> string \<Rightarrow> bool" where
  "begins_with_start_codon msa row =
     (case filter (\<lambda>c. c \<noteq> GAP_CHAR) (take (length_msa msa) row) of
        c0 # c1 # c2 # rest \<Rightarrow> IS_START (c0, c1, c2)
      | _ \<Rightarrow> False)"

section \<open>Properties of the cleaning of coding sequences\<close>

lemma skip_gaps_fwd_filter:
  assumes "r < length rows" and "L \<le> length (rows ! r)" and "k \<le> L"
  shows "int k \<le> skip_gaps_fwd env rows r (int L) (int k) \<and>
         skip_gaps_fwd env rows r (int L) (int k) \<le> int L \<and>
         filter (\<lambda>c. c \<noteq> GAP_CHAR) (drop k (take L (rows ! r))) =
           (if skip_gaps_fwd env rows r (int L) (int k) < int L
            then rows ! r ! nat (skip_gaps_fwd env rows r (int L) (int k)) #
                 filter (\<lambda>c. c \<noteq> GAP_CHAR)
                   (drop (nat (skip_gaps_fwd env rows r (int L) (int k)) + 1) (take L (rows ! r)))
            else [])"
  using assms(3)
proof (induction "L - k" arbitrary: k)
  case 0
  then have "k = L" by simp
  moreover have "skip_gaps_fwd env rows r (int L) (int L) = int L"
    by (subst skip_gaps_fwd.simps) simp
  ultimately show ?case by simp
next
  case (Suc d)
  then have kl: "k < L" by simp
  have d: "d = L - (k + 1)" using Suc.hyps(2) by simp
  have ch: "seq_char env rows r (int k) = rows ! r ! k"
    using assms(1,2) kl by (simp add: seq_char_def)
  have split: "drop k (take L (rows ! r)) = rows ! r ! k # drop (k + 1) (take L (rows ! r))"
    using kl assms(2) by (simp add: Cons_nth_drop_Suc [symmetric])
  show ?case
  proof (cases "rows ! r ! k = GAP_CHAR")
    case True
    have "skip_gaps_fwd env rows r (int L) (int k) = skip_gaps_fwd env rows r (int L) (int (k + 1))"
      using True ch kl by (subst skip_gaps_fwd.simps) (simp add: add.commute)
    then show ?thesis
      using Suc.hyps(1) [OF d] kl True split by simp
  next
    case False
    have "skip_gaps_fwd env rows r (int L) (int k) = int k"
      using False ch by (subst skip_gaps_fwd.simps) simp
    then show ?thesis using kl False split by simp
  qed
qed

lemma find_start_round:
  assumes "r < length rows" and "L \<le> length (rows ! r)" and "k \<le> L" and "pos < 3"
  shows "find_start env rows r (int L) pos (int k) b c = (int L, b, c) \<or>
         (\<exists>k1<L. filter (\<lambda>c. c \<noteq> GAP_CHAR) (drop k (take L (rows ! r))) =
                   rows ! r ! k1 # filter (\<lambda>c. c \<noteq> GAP_CHAR) (drop (k1 + 1) (take L (rows ! r))) \<and>
                 find_start env rows r (int L) pos (int k) b c =
                   find_start env rows r (int L) (pos + 1) (int (k1 + 1))
                     (if pos = 0 then int k1 else b) (set_codon c pos (rows ! r ! k1)))"
proof -
  define i1 where "i1 = skip_gaps_fwd env rows r (int L) (int k)"
  note sk = skip_gaps_fwd_filter [OF assms(1,2,3), of env, folded i1_def]
  show ?thesis
  proof (cases "i1 = int L")
    case True
    then have "find_start env rows r (int L) pos (int k) b c = (int L, b, c)"
      using assms(4) by (subst find_start.simps) (simp add: Let_def i1_def [symmetric])
    then show ?thesis by simp
  next
    case False
    define k1 where "k1 = nat i1"
    have "0 \<le> i1" "i1 < int L" using sk False by linarith+
    then have k1: "int k1 = i1" "k1 < L" by (simp_all add: k1_def)
    have ch: "seq_char env rows r i1 = rows ! r ! k1"
      using assms(1,2) k1 by (auto simp: seq_char_def k1_def)
    have "find_start env rows r (int L) pos (int k) b c =
          find_start env rows r (int L) (pos + 1) (i1 + 1)
            (if pos = 0 then i1 else b) (set_codon c pos (seq_char env rows r i1))"
      using assms(4) False
      by (subst find_start.simps) (simp add: Let_def i1_def [symmetric])
    moreover have "i1 + 1 = int (k1 + 1)" using k1 by simp
    moreover have "filter (\<lambda>c. c \<noteq> GAP_CHAR) (drop k (take L (rows ! r))) =
         rows ! r ! k1 # filter (\<lambda>c. c \<noteq> GAP_CHAR) (drop (k1 + 1) (take L (rows ! r)))"
      using sk False k1 by (simp add: k1_def)
    ultimately show ?thesis using k1 ch by auto
  qed
qed

lemma find_start_codon:
  assumes "r < length rows" and "L \<le> length (rows ! r)"
  shows "fst (find_start env rows r (int L) 0 0 b c) = int L \<or>
         (\<exists>c0 c1 c2 rest.
            filter (\<lambda>c. c \<noteq> GAP_CHAR) (take L (rows ! r)) = c0 # c1 # c2 # rest \<and>
            snd (snd (find_start env rows r (int L) 0 0 b c)) = (c0, c1, c2))"
proof -
  let ?row = "rows ! r"
  let ?ng = "filter (\<lambda>c. c \<noteq> GAP_CHAR)"
  from find_start_round [OF assms, of 0 0 env b c]
  consider "find_start env rows r (int L) 0 0 b c = (int L, b, c)"
    | k1 where "k1 < L" "?ng (take L ?row) = ?row ! k1 # ?ng (drop (k1 + 1) (take L ?row))"
        "find_start env rows r (int L) 0 0 b c =
         find_start env rows r (int L) 1 (int (k1 + 1)) (int k1) (set_codon c 0 (?row ! k1))"
    by auto
  then show ?thesis
  proof cases
    case 1
    then show ?thesis by simp
  next
    case (2 k1)
    note first = this
    define c' where "c' = set_codon c 0 (?row ! k1)"
    from find_start_round [OF assms, of "k1 + 1" 1 env "int k1" c'] first(1)
    consider "find_start env rows r (int L) 1 (int (k1 + 1)) (int k1) c' = (int L, int k1, c')"
      | k2 where "k2 < L"
          "?ng (drop (k1 + 1) (take L ?row)) = ?row ! k2 # ?ng (drop (k2 + 1) (take L ?row))"
          "find_start env rows r (int L) 1 (int (k1 + 1)) (int k1) c' =
           find_start env rows r (int L) 2 (int (k2 + 1)) (int k1) (set_codon c' 1 (?row ! k2))"
      by auto
    then show ?thesis
    proof cases
      case 1
      with first(3) show ?thesis by (simp add: c'_def)
    next
      case (2 k2)
      note second = this
      define c'' where "c'' = set_codon c' 1 (?row ! k2)"
      from find_start_round [OF assms, of "k2 + 1" 2 env "int k1" c''] second(1)
      consider "find_start env rows r (int L) 2 (int (k2 + 1)) (int k1) c'' = (int L, int k1, c'')"
        | k3 where "k3 < L"
            "?ng (drop (k2 + 1) (take L ?row)) = ?row ! k3 # ?ng (drop (k3 + 1) (take L ?row))"
            "find_start env rows r (int L) 2 (int (k2 + 1)) (int k1) c'' =
             find_start env rows r (int L) 3 (int (k3 + 1)) (int k1) (set_codon c'' 2 (?row ! k3))"
        by auto
      then show ?thesis
      proof cases
        case 1
        with first(3) second(3) show ?thesis by (simp add: c'_def c''_def)
      next
        case (2 k3)
        have fin: "find_start env rows r (int L) 3 (int (k3 + 1)) (int k1) (set_codon c'' 2 (?row ! k3)) =
              (int (k3 + 1), int k1, set_codon c'' 2 (?row ! k3))"
          by (subst find_start.simps) simp
        have cod: "set_codon c'' 2 (?row ! k3) = (?row ! k1, ?row ! k2, ?row ! k3)"
          by (simp add: c''_def c'_def set_codon_def)
        have "find_start env rows r (int L) 0 0 b c = (int (k3 + 1), int k1, ?row ! k1, ?row ! k2, ?row ! k3)"
          using first(3) second(3) 2(3) fin cod by (simp add: c'_def c''_def)
        moreover have "?ng (take L ?row) = ?row ! k1 # ?row ! k2 # ?row ! k3 # ?ng (drop (k3 + 1) (take L ?row))"
          using first(2) second(2) 2(2) by simp
        ultimately show ?thesis by simp
      qed
    qed
  qed
qed

lemma scan_report_result:
  assumes "scan_report retval0 beg en errstr2 st = (retval, st', errstr')"
  shows "(retval = 0 \<or> retval = 1) \<and> (\<exists>suffix. errstr' = errstr2 @ suffix)"
  using assms by (auto simp: scan_report_def Let_def split: if_splits)

lemma scan_report_rejected:
  "st_trunc st = 0 \<Longrightarrow> scan_report 1 beg en errstr2 st = (1, st, errstr2)"
  by (simp add: scan_report_def)

text \<open>
  Without a start codon the main loop is not entered: the scan returns 1 with the first
  message, followed at most by the message about the stop codon.
\<close>

lemma coding_clean_scan_no_start:
  assumes "fst (find_start env rows r len 0 0 (beg0 env) (tmp_codon0 env)) = len \<or>
           \<not> IS_START (snd (snd (find_start env rows r len 0 0 (beg0 env) (tmp_codon0 env))))"
  shows "\<exists>st rest. coding_clean_scan env rows r n len min_ncodons errstr =
           Inr (1, st, errstr @ no_start_codon @ rest)"
proof -
  define found where "found = find_start env rows r len 0 0 (beg0 env) (tmp_codon0 env)"
  define no_stop where "no_stop \<longleftrightarrow>
     fst (find_stop env rows r (fst (snd found)) 2 (len - 1) (end0 env) (snd (snd found))) =
       fst (snd found) \<or>
     \<not> IS_STOP (snd (snd (find_stop env rows r (fst (snd found)) 2 (len - 1) (end0 env)
                            (snd (snd found)))))"
  define st0 where "st0 = \<lparr>st_i = fst (snd found), st_frame = 0, st_ngaps = replicate n 0,
                 st_block_begs = [], st_block_ends = [], st_trunc = 0\<rparr>"
  have no_start: "fst found = len \<or> \<not> IS_START (snd (snd found))"
    using assms by (simp add: found_def)
  have "coding_clean_scan env rows r n len min_ncodons errstr =
        Inr (scan_report 1 (fst (snd found))
               (fst (snd (find_stop env rows r (fst (snd found)) 2 (len - 1) (end0 env)
                            (snd (snd found)))))
               (if no_stop then (errstr @ no_start_codon) @ no_stop_codon
                else errstr @ no_start_codon) st0)"
    unfolding coding_clean_scan_def found_def [symmetric] Let_def
    using no_start by (simp add: no_stop_def st0_def)
  also have "\<dots> = Inr (1, st0, errstr @ no_start_codon @ (if no_stop then no_stop_codon else []))"
    by (simp add: scan_report_rejected st0_def)
  finally show ?thesis by blast
qed

text \<open>
  The scan returns 0 or 1, and the error string it returns is the one it was given with
  messages appended.
\<close>

lemma coding_clean_scan_result:
  assumes "coding_clean_scan env rows r n len min_ncodons errstr = Inr (retval, st, errstr')"
  shows "(retval = 0 \<or> retval = 1) \<and> (\<exists>suffix. errstr' = errstr @ suffix)"
proof -
  from assms obtain retval0 beg en errstr2 st0 where
    rep: "scan_report retval0 beg en errstr2 st0 = (retval, st, errstr')"
    and e2: "\<exists>suffix. errstr2 = errstr @ suffix"
    unfolding coding_clean_scan_def Let_def
    by (auto split: sum.splits if_splits)
  from scan_report_result [OF rep] e2 show ?thesis by auto
qed

text \<open>
  C3: for every alignment with an explicit matrix whose reference row does not begin
  with a start codon (\<^verbatim>\<open>ATG\<close>, gaps between its characters allowed),
  \<^verbatim>\<open>msa_coding_clean\<close> returns 1, appends "Reference sequence does not begin with start
  codon." to the error string (possibly followed by the message about the stop codon),
  and leaves the alignment as it was: nothing is rewritten. This holds whatever the
  uninitialised variables contain.
\<close>

theorem msa_coding_clean_no_start_codon:
  assumes "explicit_matrix msa rows" and "0 \<le> refseq" and "refseq < int (nseqs msa)"
    and "\<not> begins_with_start_codon msa (rows ! nat refseq)"
  shows "\<exists>rest. msa_coding_clean env msa refseq min_ncodons errstr =
           Inr (1, msa, errstr @ no_start_codon @ rest)"
proof -
  define r where "r = nat refseq"
  define L where "L = length_msa msa"
  have s: "seqs msa = Some rows" and lr: "length rows = nseqs msa"
    and ll: "list_all (\<lambda>row. L < length row) rows"
    using assms(1) by (simp_all add: explicit_matrix_def L_def)
  have r: "r < length rows" using assms(2,3) lr by (simp add: r_def)
  then have rl: "L \<le> length (rows ! r)" using ll by (simp add: list_all_length less_imp_le)
  from find_start_codon [OF r rl, of env "beg0 env" "tmp_codon0 env"] assms(4)
  have "fst (find_start env rows r (int L) 0 0 (beg0 env) (tmp_codon0 env)) = int L \<or>
        \<not> IS_START (snd (snd (find_start env rows r (int L) 0 0 (beg0 env) (tmp_codon0 env))))"
    by (auto simp: begins_with_start_codon_def r_def L_def)
  from coding_clean_scan_no_start [OF this, of "nseqs msa" min_ncodons errstr]
  obtain st rest where "coding_clean_scan env rows r (nseqs msa) (int L) min_ncodons errstr =
           Inr (1, st, errstr @ no_start_codon @ rest)" by blast
  then have "msa_coding_clean env msa refseq min_ncodons errstr =
           Inr (1, msa, errstr @ no_start_codon @ rest)"
    using s assms(2,3) lr by (simp add: msa_coding_clean_def r_def L_def)
  then show ?thesis by blast
qed

text \<open>
  C10: \<^verbatim>\<open>msa_coding_clean\<close> is atomic on failure. Whenever it returns a nonzero value,
  for whichever of its four reasons, the alignment is exactly as it was before the call
  (length, rows and every other field), and the error string is the given one with
  text appended.
\<close>

theorem msa_coding_clean_atomic:
  assumes "msa_coding_clean env msa refseq min_ncodons errstr = Inr (retval, msa', errstr')"
    and "retval \<noteq> 0"
  shows "msa' = msa \<and> retval = 1 \<and> (\<exists>suffix. errstr' = errstr @ suffix)"
proof -
  from assms(1) obtain rows where s: "seqs msa = Some rows"
    by (cases "seqs msa") (simp_all add: msa_coding_clean_def)
  from assms(1) s have rng: "0 \<le> refseq \<and> refseq < int (length rows)"
    by (simp add: msa_coding_clean_def split: if_splits)
  from assms(1) s rng obtain rv st e where
    scan: "coding_clean_scan env rows (nat refseq) (nseqs msa) (int (length_msa msa))
             min_ncodons errstr = Inr (rv, st, e)"
    by (cases "coding_clean_scan env rows (nat refseq) (nseqs msa) (int (length_msa msa))
             min_ncodons errstr") (auto simp: msa_coding_clean_def)
  note res = coding_clean_scan_result [OF scan]
  show ?thesis
  proof (cases "rv = 1")
    case True
    then have "msa_coding_clean env msa refseq min_ncodons errstr = Inr (1, msa, e)"
      using s rng scan by (simp add: msa_coding_clean_def)
    with assms(1) res show ?thesis by simp
  next
    case False
    then have "rv = 0" using res by simp
    then have "retval = 0"
      using assms(1) s rng scan by (auto simp: msa_coding_clean_def split: sum.splits)
    with assms(2) show ?thesis by simp
  qed
qed

theorem msa_coding_clean_no_start_codon_witness:
  "\<exists>rest. msa_coding_clean clean_env (cds_msa ''AAAAAATAA'') 0 1 ''log: '' =
           Inr (1, cds_msa ''AAAAAATAA'', ''log: '' @ no_start_codon @ rest)"
proof -
  have e: "explicit_matrix (cds_msa ''AAAAAATAA'') [''AAAAAATAA'' @ [NUL]]"
    by (simp add: explicit_matrix_def cds_msa_def msa_new_def)
  have r: "(0::int) \<le> 0" "0 < int (nseqs (cds_msa ''AAAAAATAA''))"
    by (simp_all add: cds_msa_def msa_new_def)
  have n: "\<not> begins_with_start_codon (cds_msa ''AAAAAATAA'') ([''AAAAAATAA'' @ [NUL]] ! nat 0)"
    by code_simp
  show ?thesis by (rule msa_coding_clean_no_start_codon [OF e r n])
qed

text \<open>
  A rejected alignment: the in-frame stop codon \<^verbatim>\<open>TAG\<close> at column 25 lies before the
  last fifth of the 30 columns between start and stop codon.
\<close>

lemma msa_coding_clean_in_frame_stop:
  "msa_coding_clean clean_env (cds_msa ''ATGAAACCCGGGTTTAAACCCGGGTAGCCCTAA'') 0 1 [] =
     Inr (1, cds_msa ''ATGAAACCCGGGTTTAAACCCGGGTAGCCCTAA'',
          ''In-frame stop codon or frame shift not in last 20% of alignment.  See approx. position 24.'')"
  by code_simp

theorem msa_coding_clean_atomic_witness:
  "msa_coding_clean clean_env (cds_msa ''ATGAAACCCGGGTTTAAACCCGGGTAGCCCTAA'') 0 1 [] =
     Inr (1, cds_msa ''ATGAAACCCGGGTTTAAACCCGGGTAGCCCTAA'',
          ''In-frame stop codon or frame shift not in last 20% of alignment.  See approx. position 24.'') \<and>
   cds_msa ''ATGAAACCCGGGTTTAAACCCGGGTAGCCCTAA'' = cds_msa ''ATGAAACCCGGGTTTAAACCCGGGTAGCCCTAA'' \<and>
   (1::int) = 1 \<and>
   (\<exists>suffix. ''In-frame stop codon or frame shift not in last 20% of alignment.  See approx. position 24.'' =
              [] @ suffix)"
proof -
  have nz: "(1::int) \<noteq> 0" by simp
  from msa_coding_clean_atomic [OF msa_coding_clean_in_frame_stop nz]
    msa_coding_clean_in_frame_stop
  show ?thesis by blast
qed

text \<open>
  C2, as the claim states it, fails. On the one-row alignment \<^verbatim>\<open>ATGAAATAA\<close> with
  \<^verbatim>\<open>min_ncodons\<close> 1 the function does return 0, but with \<^verbatim>\<open>KEEP_STOP_CODONS\<close> 0 the
  scanned span ends before the stop codon: the cleaned alignment has length 6 and its
  row is \<^verbatim>\<open>ATGAAA\<close>, not length 9 and \<^verbatim>\<open>ATGAAATAA\<close>.
\<close>

theorem msa_coding_clean_stop_codon_counterexample:
  "map_sum id (\<lambda>(retval, msa', errstr'). (retval, length_msa msa', matrix msa'))
     (msa_coding_clean clean_env (cds_msa ''ATGAAATAA'') 0 1 []) = Inr (0, 6, [''ATGAAA'']) \<and>
   map_sum id (\<lambda>(retval, msa', errstr'). (retval, length_msa msa', matrix msa'))
     (msa_coding_clean clean_env (cds_msa ''ATGAAATAA'') 0 1 []) \<noteq> Inr (0, 9, [''ATGAAATAA''])"
  by code_simp

text \<open>
  C2 (amended): on the one-row alignment whose reference row is \<^verbatim>\<open>ATGAAATAA\<close>, with
  \<^verbatim>\<open>min_ncodons\<close> 1, \<^verbatim>\<open>msa_coding_clean\<close> returns 0 and leaves the error string as it
  was; the cleaned alignment retains the two codons before the stop codon: it has length
  6 and its row is \<^verbatim>\<open>ATGAAA\<close>. This holds whatever the uninitialised variables contain.
\<close>

theorem msa_coding_clean_start_stop:
  "map_sum id (\<lambda>(retval, msa', errstr'). (retval, length_msa msa', matrix msa', errstr'))
     (msa_coding_clean env (cds_msa ''ATGAAATAA'') 0 1 errstr) = Inr (0, 6, [''ATGAAA''], errstr)"
  by code_simp

theorem msa_coding_clean_start_stop_witness:
  "map_sum id (\<lambda>(retval, msa', errstr'). (retval, length_msa msa', matrix msa', errstr'))
     (msa_coding_clean clean_env (cds_msa ''ATGAAATAA'') 0 1 []) = Inr (0, 6, [''ATGAAA''], [])"
  by (rule msa_coding_clean_start_stop)

text \<open>
  Rows with gaps: the codons \<^verbatim>\<open>ATG\<close>, \<^verbatim>\<open>AAA\<close> and \<^verbatim>\<open>CCC\<close> are kept, the two gap
  columns and the stop codon go.
\<close>

lemma msa_coding_clean_gapped_example:
  "map_sum id (\<lambda>(retval, msa', errstr'). (retval, length_msa msa', matrix msa', errstr'))
     (msa_coding_clean clean_env (cds_msa ''ATG-AAA-CCCTAA'') 0 1 []) =
   Inr (0, 9, [''ATGAAACCC''], [])"
  by code_simp

end
